theory Spec2Isabelle
  imports Complex_Main "HOL-Library.AList"
begin

section \<open>The WebLLM bridge of \<^verbatim>\<open>webllm_views.py\<close>\<close>

text \<open>
  The development embeds \<^verbatim>\<open>WebLLMBridgeManager\<close>, the validation prefix of the
  \<^verbatim>\<open>webllm_chat\<close> endpoint and the generator \<^verbatim>\<open>stream_webllm_response\<close>.

  Conventions of the embedding.
  \<^item> A Python \<^verbatim>\<open>dict\<close> keeps insertion order, and \<^verbatim>\<open>min\<close> and the list comprehension of
    the cleanup sweep iterate in that order, so a dict is an association list:
    \<^verbatim>\<open>d[k] = v\<close> is \<open>AList.update\<close> (in place for a known key, at the end for a new
    one), \<^verbatim>\<open>d.pop(k, None)\<close> is \<open>AList.delete\<close>, \<^verbatim>\<open>k in d\<close> and \<^verbatim>\<open>d.get(k)\<close> are
    \<open>map_of\<close>.
  \<^item> A \<^verbatim>\<open>datetime\<close> is its number of microseconds (an \<open>int\<close>); \<^verbatim>\<open>time.time()\<close> is a
    \<open>real\<close> number of seconds.
  \<^item> \<^verbatim>\<open>threading.Event\<close> objects live in a heap (a list of flags indexed by address);
    the dict \<^verbatim>\<open>_completion_events\<close> holds addresses, so that a waiter keeps its event
    after the dict has dropped it.
  \<^item> Every method body that runs under \<^verbatim>\<open>self._lock\<close> is one atomic state transformer.
  \<^item> What the environment supplies (\<^verbatim>\<open>uuid.uuid4()\<close>, \<^verbatim>\<open>datetime.now()\<close>,
    \<^verbatim>\<open>time.time()\<close>) is a parameter.
\<close>

subsection \<open>Configuration constants\<close>

definition DEFAULT_WEBLLM_TIMEOUT :: int where
  "DEFAULT_WEBLLM_TIMEOUT = 180"

definition MAX_CONCURRENT_REQUESTS :: nat where
  "MAX_CONCURRENT_REQUESTS = 10"

definition REQUEST_TTL :: int where
  "REQUEST_TTL = 600"

subsection \<open>Data\<close>

type_synonym 'v dict = "(string \<times> 'v) list"

datatype py_error = KeyError | ValueError

record WebLLMRequest =
  request_id :: string
  request_type :: string
  content :: string
  system_prompt :: string
  model :: string
  temperature :: real
  max_tokens :: int
  stream :: bool
  timeout :: int
  session_id :: "string option"
  created_at :: int
  status :: string

text \<open>The fields of \<^verbatim>\<open>WebLLMResponse\<close> carry the prefix \<open>resp_\<close>.\<close>

record WebLLMResponse =
  resp_request_id :: string
  resp_content :: string
  resp_error :: "string option"
  resp_usage :: "(string \<times> int) list"
  resp_done :: bool
  resp_created_at :: int

text \<open>The argument of \<^verbatim>\<open>create_request\<close>: a dict read only through \<^verbatim>\<open>.get\<close>; \<open>None\<close> is
  a missing key.\<close>

record request_data =
  d_type :: "string option"
  d_content :: "string option"
  d_system_prompt :: "string option"
  d_model :: "string option"
  d_temperature :: "real option"
  d_max_tokens :: "int option"
  d_stream :: "bool option"
  d_timeout :: "int option"
  d_session_id :: "string option"

record WebLLMBridgeManager =
  requests :: "WebLLMRequest dict"
  response_queues :: "WebLLMResponse list dict"
  completion_events :: "nat dict"
  event_heap :: "bool list"

definition keys :: "'v dict \<Rightarrow> string set" where
  "keys d = fst ` set d"

definition dict_get :: "'v option \<Rightarrow> 'v \<Rightarrow> 'v" where
  "dict_get v dflt = (case v of None \<Rightarrow> dflt | Some x \<Rightarrow> x)"

text \<open>Truthiness of an \<^verbatim>\<open>Optional[str]\<close>: \<^verbatim>\<open>None\<close> and the empty string are false.\<close>

definition truthy :: "string option \<Rightarrow> bool" where
  "truthy v = (case v of None \<Rightarrow> False | Some s \<Rightarrow> s \<noteq> [])"

subsection \<open>Event objects\<close>

definition Event_new :: "bool list \<Rightarrow> nat \<times> bool list" where
  "Event_new h = (length h, h @ [False])"

definition Event_set :: "nat \<Rightarrow> bool list \<Rightarrow> bool list" where
  "Event_set ev h = h[ev := True]"

definition Event_is_set :: "bool list \<Rightarrow> nat \<Rightarrow> bool" where
  "Event_is_set h ev = (ev < length h \<and> h ! ev)"

subsection \<open>The manager\<close>

definition init_manager :: WebLLMBridgeManager where
  "init_manager = \<lparr>requests = [], response_queues = [], completion_events = [], event_heap = []\<rparr>"

definition remove_request :: "string \<Rightarrow> WebLLMBridgeManager \<Rightarrow> WebLLMBridgeManager" where
  "remove_request rid m =
     (let m1 = m\<lparr>requests := AList.delete rid (requests m)\<rparr>;
          m2 = m1\<lparr>response_queues := AList.delete rid (response_queues m1)\<rparr>
      in case map_of (completion_events m2) rid of
           None \<Rightarrow> m2
         | Some ev \<Rightarrow>
             m2\<lparr>event_heap := Event_set ev (event_heap m2),
                completion_events := AList.delete rid (completion_events m2)\<rparr>)"

text \<open>\<^verbatim>\<open>min(iterable, key=f)\<close>: the first element of least key; \<^verbatim>\<open>ValueError\<close> on an empty
  iterable.\<close>

fun py_min :: "('a \<Rightarrow> int) \<Rightarrow> 'a list \<Rightarrow> py_error + 'a" where
  "py_min f [] = Inl ValueError"
| "py_min f (x # xs) = Inr (foldl (\<lambda>m y. if f y < f m then y else m) x xs)"

text \<open>\<^verbatim>\<open>min(self._requests.keys(), key=lambda x: self._requests[x].created_at)\<close> looks each
  key up in the dict it iterates, so it is the minimum over the entries.\<close>

definition oldest_id :: "WebLLMRequest dict \<Rightarrow> py_error + string" where
  "oldest_id d = (case py_min (\<lambda>e. created_at (snd e)) d of
                   Inl e \<Rightarrow> Inl e | Inr e \<Rightarrow> Inr (fst e))"

definition new_request :: "string \<Rightarrow> int \<Rightarrow> request_data \<Rightarrow> WebLLMRequest" where
  "new_request uuid now d =
     \<lparr>request_id = uuid,
      request_type = dict_get (d_type d) ''chat'',
      content = dict_get (d_content d) [],
      system_prompt = dict_get (d_system_prompt d) ''You are a helpful AI assistant.'',
      model = dict_get (d_model d) ''Llama-3.2-1B-Instruct'',
      temperature = dict_get (d_temperature d) (7 / 10),
      max_tokens = dict_get (d_max_tokens d) 4096,
      stream = dict_get (d_stream d) False,
      timeout = dict_get (d_timeout d) DEFAULT_WEBLLM_TIMEOUT,
      session_id = d_session_id d,
      created_at = now,
      status = ''pending''\<rparr>"

definition insert_request :: "WebLLMRequest \<Rightarrow> WebLLMBridgeManager \<Rightarrow> WebLLMBridgeManager" where
  "insert_request r m =
     (let (ev, h) = Event_new (event_heap m);
          m1 = m\<lparr>requests := AList.update (request_id r) r (requests m)\<rparr>;
          m2 = m1\<lparr>completion_events := AList.update (request_id r) ev (completion_events m1),
                  event_heap := h\<rparr>
      in if stream r
         then m2\<lparr>response_queues := AList.update (request_id r) [] (response_queues m2)\<rparr>
         else m2)"

definition create_request ::
  "string \<Rightarrow> int \<Rightarrow> request_data \<Rightarrow> WebLLMBridgeManager
     \<Rightarrow> py_error + (WebLLMRequest \<times> WebLLMBridgeManager)" where
  "create_request uuid now d m =
     (let webllm_request = new_request uuid now d
      in if length (requests m) \<ge> MAX_CONCURRENT_REQUESTS
         then (case oldest_id (requests m) of
                 Inl e \<Rightarrow> Inl e
               | Inr old \<Rightarrow> Inr (webllm_request, insert_request webllm_request (remove_request old m)))
         else Inr (webllm_request, insert_request webllm_request m))"

definition get_pending_requests :: "WebLLMBridgeManager \<Rightarrow> WebLLMRequest list" where
  "get_pending_requests m = filter (\<lambda>req. status req = ''pending'') (map snd (requests m))"

definition mark_processing :: "string \<Rightarrow> WebLLMBridgeManager \<Rightarrow> bool \<times> WebLLMBridgeManager" where
  "mark_processing rid m =
     (case map_of (requests m) rid of
        Some req \<Rightarrow> (True, m\<lparr>requests := AList.update rid (req\<lparr>status := ''processing''\<rparr>) (requests m)\<rparr>)
      | None \<Rightarrow> (False, m))"

text \<open>The completion step shared by both branches of \<^verbatim>\<open>submit_response\<close>:
  \<^verbatim>\<open>self._completion_events[request_id].set()\<close>, which raises \<^verbatim>\<open>KeyError\<close> for a missing
  key, then \<^verbatim>\<open>request.status = 'completed'\<close>.\<close>

definition signal_completed ::
  "string \<Rightarrow> WebLLMRequest \<Rightarrow> WebLLMBridgeManager \<Rightarrow> (py_error + bool) \<times> WebLLMBridgeManager" where
  "signal_completed rid req m =
     (case map_of (completion_events m) rid of
        None \<Rightarrow> (Inl KeyError, m)
      | Some ev \<Rightarrow>
          (Inr True,
           m\<lparr>event_heap := Event_set ev (event_heap m),
             requests := AList.update rid (req\<lparr>status := ''completed''\<rparr>) (requests m)\<rparr>))"

definition submit_response ::
  "string \<Rightarrow> WebLLMResponse \<Rightarrow> WebLLMBridgeManager \<Rightarrow> (py_error + bool) \<times> WebLLMBridgeManager" where
  "submit_response rid response m =
     (case map_of (requests m) rid of
        None \<Rightarrow> (Inr False, m)
      | Some req \<Rightarrow>
          if stream req then
            (case map_of (response_queues m) rid of
               Some q \<Rightarrow>
                 (let m1 = m\<lparr>response_queues := AList.update rid (q @ [response]) (response_queues m)\<rparr>
                  in if resp_done response \<or> truthy (resp_error response)
                     then signal_completed rid req m1
                     else (Inr True, m1))
             | None \<Rightarrow> (Inr False, m))
          else
            signal_completed rid req
              (m\<lparr>response_queues := AList.update rid [response] (response_queues m)\<rparr>))"

definition get_response ::
  "string \<Rightarrow> WebLLMBridgeManager \<Rightarrow> WebLLMResponse option \<times> WebLLMBridgeManager" where
  "get_response rid m =
     (case map_of (response_queues m) rid of
        None \<Rightarrow> (None, m)
      | Some [] \<Rightarrow> (None, m)
      | Some (r # q) \<Rightarrow> (Some r, m\<lparr>response_queues := AList.update rid q (response_queues m)\<rparr>))"

definition get_final_response ::
  "string \<Rightarrow> WebLLMBridgeManager \<Rightarrow> WebLLMResponse option \<times> WebLLMBridgeManager" where
  "get_final_response rid m =
     (case map_of (response_queues m) rid of
        None \<Rightarrow> (None, m)
      | Some [] \<Rightarrow> (None, m)
      | Some (r # q) \<Rightarrow>
          (Some r, remove_request rid (m\<lparr>response_queues := AList.update rid q (response_queues m)\<rparr>)))"

definition cancel_request :: "string \<Rightarrow> WebLLMBridgeManager \<Rightarrow> WebLLMBridgeManager" where
  "cancel_request rid m = (if rid \<in> keys (requests m) then remove_request rid m else m)"

text \<open>\<^verbatim>\<open>(now - req.created_at).total_seconds() > REQUEST_TTL\<close>: \<^verbatim>\<open>total_seconds\<close> is the
  correctly rounded quotient of the microsecond count by \<open>10\<^sup>6\<close>, and it exceeds 600
  exactly when the count exceeds 600 times \<open>10\<^sup>6\<close>.\<close>

definition expired :: "int \<Rightarrow> WebLLMRequest \<Rightarrow> bool" where
  "expired now req = (now - created_at req > REQUEST_TTL * 1000000)"

definition expired_ids :: "int \<Rightarrow> WebLLMBridgeManager \<Rightarrow> string list" where
  "expired_ids now m = map fst (filter (\<lambda>(req_id, req). expired now req) (requests m))"

definition cleanup_expired_requests :: "int \<Rightarrow> WebLLMBridgeManager \<Rightarrow> WebLLMBridgeManager" where
  "cleanup_expired_requests now m =
     foldl (\<lambda>m' req_id. remove_request req_id m') m (expired_ids now m)"

record bridge_status =
  total_requests :: nat
  requests_by_status :: "nat dict"
  max_concurrent :: nat
  bridge_active :: bool

definition get_status :: "WebLLMBridgeManager \<Rightarrow> bridge_status" where
  "get_status m =
     \<lparr>total_requests = length (requests m),
      requests_by_status =
        foldl (\<lambda>acc req. AList.update (status req) (dict_get (map_of acc (status req)) 0 + 1) acc)
          [] (map snd (requests m)),
      max_concurrent = MAX_CONCURRENT_REQUESTS,
      bridge_active = True\<rparr>"

subsection \<open>Waiting for completion\<close>

text \<open>\<^verbatim>\<open>timeout or (request.timeout if request else DEFAULT_WEBLLM_TIMEOUT)\<close>: \<^verbatim>\<open>None\<close> and
  \<^verbatim>\<open>0\<close> are false.\<close>

definition actual_timeout :: "int option \<Rightarrow> WebLLMRequest option \<Rightarrow> int" where
  "actual_timeout tmo request =
     (let fallback = (case request of Some r \<Rightarrow> timeout r | None \<Rightarrow> DEFAULT_WEBLLM_TIMEOUT)
      in case tmo of None \<Rightarrow> fallback | Some t \<Rightarrow> if t \<noteq> 0 then t else fallback)"

text \<open>\<^verbatim>\<open>Event.wait(timeout)\<close> returns \<^verbatim>\<open>True\<close> as soon as the flag is set and \<^verbatim>\<open>False\<close> when
  the timeout has passed with the flag still clear. The waiter holds the address of the
  event; what the other threads do while it sleeps is a list of heaps, each with the time
  (in seconds after the call) at which it came about, in ascending order.\<close>

fun Event_wait :: "nat \<Rightarrow> real \<Rightarrow> (real \<times> bool list) list \<Rightarrow> bool" where
  "Event_wait ev t [] = False"
| "Event_wait ev t ((tm, h) # rest) =
     (if tm \<ge> t then False
      else if Event_is_set h ev then True
      else Event_wait ev t rest)"

text \<open>\<^verbatim>\<open>wait_for_completion\<close> takes no lock. Its three reads of the manager see the
  state \<open>m\<close> of the moment of the call; \<open>later\<close> lists the states that the other threads
  produce afterwards, with their times.\<close>

definition wait_for_completion ::
  "string \<Rightarrow> int option \<Rightarrow> WebLLMBridgeManager \<Rightarrow> (real \<times> WebLLMBridgeManager) list \<Rightarrow> bool" where
  "wait_for_completion rid tmo m later =
     (case map_of (completion_events m) rid of
        None \<Rightarrow> False
      | Some event \<Rightarrow>
          (let request = map_of (requests m) rid;
               t = actual_timeout tmo request
           in Event_is_set (event_heap m) event \<or>
              Event_wait event (real_of_int t) (map (\<lambda>(tm, m'). (tm, event_heap m')) later)))"

subsection \<open>The chat endpoint up to the creation of the request\<close>

text \<open>\<^verbatim>\<open>request.data\<close> of \<^verbatim>\<open>webllm_chat\<close>; \<open>None\<close> is a missing key or \<^verbatim>\<open>None\<close>.\<close>

record chat_data =
  c_content :: "string option"
  c_user_message :: "string option"
  c_system_prompt :: "string option"
  c_model :: "string option"
  c_stream :: "bool option"
  c_temperature :: "real option"
  c_max_tokens :: "int option"
  c_timeout :: "int option"
  c_session_id :: "string option"

text \<open>\<^verbatim>\<open>str.isspace\<close> on the code points below 256, and \<^verbatim>\<open>str.strip()\<close>.\<close>

definition isspace :: "char \<Rightarrow> bool" where
  "isspace c = (of_char c \<in> {9, 10, 11, 12, 13, 28, 29, 30, 31, 32, 133, 160 :: nat})"

definition strip :: "string \<Rightarrow> string" where
  "strip s = rev (dropWhile isspace (rev (dropWhile isspace s)))"

definition py_or :: "string option \<Rightarrow> string option \<Rightarrow> string option" where
  "py_or a b = (if truthy a then a else b)"

definition allowed_models :: "string list" where
  "allowed_models =
     [''Llama-3.2-1B-Instruct'', ''Llama-3.2-3B-Instruct'', ''Phi-3.5-mini-instruct'',
      ''Qwen2.5-0.5B-Instruct'', ''Qwen2.5-1.5B-Instruct'']"

text \<open>How the view goes on: an HTTP 400 or 500 response, the streaming response over the
  created request, or the blocking wait for it.\<close>

datatype chat_outcome =
    Response400 string
  | Response500 py_error
  | Streams WebLLMRequest
  | Waits WebLLMRequest

definition chat_request_data :: "chat_data \<Rightarrow> string \<Rightarrow> string \<Rightarrow> bool \<Rightarrow> request_data" where
  "chat_request_data c cont mdl strm =
     \<lparr>d_type = Some ''chat'',
      d_content = Some cont,
      d_system_prompt = Some (dict_get (c_system_prompt c) ''You are a helpful AI assistant.''),
      d_model = Some mdl,
      d_temperature = Some (dict_get (c_temperature c) (7 / 10)),
      d_max_tokens = Some (dict_get (c_max_tokens c) 4096),
      d_stream = Some strm,
      d_timeout = Some (dict_get (c_timeout c) DEFAULT_WEBLLM_TIMEOUT),
      d_session_id = c_session_id c\<rparr>"

text \<open>\<^verbatim>\<open>(request.data.get('content') or request.data.get('user_message') or '').strip()\<close>\<close>

definition chat_content :: "chat_data \<Rightarrow> string" where
  "chat_content c = strip (dict_get (py_or (py_or (c_content c) (c_user_message c)) (Some [])) [])"

definition webllm_chat ::
  "string \<Rightarrow> int \<Rightarrow> chat_data \<Rightarrow> WebLLMBridgeManager \<Rightarrow> chat_outcome \<times> WebLLMBridgeManager" where
  "webllm_chat uuid now c m =
     (let cont = chat_content c;
          mdl0 = dict_get (c_model c) ''Llama-3.2-1B-Instruct'';
          mdl = (if mdl0 \<notin> set allowed_models then ''Llama-3.2-1B-Instruct'' else mdl0)
      in if cont = [] then (Response400 ''Content is required'', m)
         else if dict_get (c_stream c) False then
           (case create_request uuid now (chat_request_data c cont mdl True) m of
              Inl e \<Rightarrow> (Response500 e, m)
            | Inr res \<Rightarrow> (Streams (fst res), snd res))
         else
           (case create_request uuid now (chat_request_data c cont mdl False) m of
              Inl e \<Rightarrow> (Response500 e, m)
            | Inr res \<Rightarrow> (Waits (fst res), snd res)))"

subsection \<open>Operations as a transition system\<close>

text \<open>One constructor per state-changing method; \<open>step\<close> is the state the method leaves
  behind (also when it raises).\<close>

datatype op =
    CreateRequest string int request_data
  | MarkProcessing string
  | SubmitResponse string WebLLMResponse
  | GetResponse string
  | GetFinalResponse string
  | CancelRequest string
  | CleanupExpired int

fun step :: "op \<Rightarrow> WebLLMBridgeManager \<Rightarrow> WebLLMBridgeManager" where
  "step (CreateRequest uuid now d) m =
     (case create_request uuid now d m of Inl e \<Rightarrow> m | Inr res \<Rightarrow> snd res)"
| "step (MarkProcessing rid) m = snd (mark_processing rid m)"
| "step (SubmitResponse rid response) m = snd (submit_response rid response m)"
| "step (GetResponse rid) m = snd (get_response rid m)"
| "step (GetFinalResponse rid) m = snd (get_final_response rid m)"
| "step (CancelRequest rid) m = cancel_request rid m"
| "step (CleanupExpired now) m = cleanup_expired_requests now m"

definition run :: "op list \<Rightarrow> WebLLMBridgeManager \<Rightarrow> WebLLMBridgeManager" where
  "run ops m = foldl (\<lambda>m' a. step a m') m ops"

inductive reachable :: "WebLLMBridgeManager \<Rightarrow> bool" where
  reachable_init: "reachable init_manager"
| reachable_step: "reachable m \<Longrightarrow> reachable (step a m)"

subsection \<open>Invariants\<close>

definition keys_ok :: "WebLLMBridgeManager \<Rightarrow> bool" where
  "keys_ok m \<longleftrightarrow>
     keys (requests m) = keys (completion_events m) \<and>
     keys (response_queues m) \<subseteq> keys (requests m)"

text \<open>Well-formed states: the three association lists are dicts (no key twice), the key
  sets agree, and every event address is allocated and belongs to one request only.\<close>

definition wf :: "WebLLMBridgeManager \<Rightarrow> bool" where
  "wf m \<longleftrightarrow>
     distinct (map fst (requests m)) \<and>
     distinct (map fst (response_queues m)) \<and>
     distinct (map fst (completion_events m)) \<and>
     keys_ok m \<and>
     list_all (\<lambda>e. snd e < length (event_heap m)) (completion_events m) \<and>
     distinct (map snd (completion_events m))"

definition status_of :: "WebLLMBridgeManager \<Rightarrow> string \<Rightarrow> string option" where
  "status_of m rid = map_option status (map_of (requests m) rid)"

text \<open>What one operation hands to the consumer of \<^verbatim>\<open>get_response\<close> for the request \<open>rid\<close>,
  and what it passes to \<^verbatim>\<open>submit_response\<close> for it.\<close>

fun delivers :: "string \<Rightarrow> op \<Rightarrow> WebLLMBridgeManager \<Rightarrow> WebLLMResponse list" where
  "delivers rid (GetResponse k) m =
     (if k = rid then (case fst (get_response k m) of None \<Rightarrow> [] | Some r \<Rightarrow> [r]) else [])"
| "delivers rid a m = []"

fun submits :: "string \<Rightarrow> op \<Rightarrow> WebLLMResponse list" where
  "submits rid (SubmitResponse k r) = (if k = rid then [r] else [])"
| "submits rid a = []"

fun delivered :: "string \<Rightarrow> op list \<Rightarrow> WebLLMBridgeManager \<Rightarrow> WebLLMResponse list" where
  "delivered rid [] m = []"
| "delivered rid (a # ops) m = delivers rid a m @ delivered rid ops (step a m)"

definition submitted :: "string \<Rightarrow> op list \<Rightarrow> WebLLMResponse list" where
  "submitted rid ops = concat (map (submits rid) ops)"

fun creates :: "string \<Rightarrow> op \<Rightarrow> bool" where
  "creates rid (CreateRequest uuid now d) = (uuid = rid)"
| "creates rid a = False"

text \<open>The place of a status in the life cycle \<^verbatim>\<open>pending\<close>, \<^verbatim>\<open>processing\<close>, \<^verbatim>\<open>completed\<close>.\<close>

definition rank :: "string \<Rightarrow> nat" where
  "rank s = (if s = ''pending'' then 0 else if s = ''processing'' then 1 else 2)"

text \<open>The queue of a live streaming request: \<open>None\<close> when the id is unknown, the request
  does not stream, or it has no queue.\<close>

definition stream_queue :: "WebLLMBridgeManager \<Rightarrow> string \<Rightarrow> WebLLMResponse list option" where
  "stream_queue m rid =
     (case map_of (requests m) rid of
        None \<Rightarrow> None
      | Some req \<Rightarrow> if stream req then map_of (response_queues m) rid else None)"

subsection \<open>The streaming adapter\<close>

text \<open>A frame is the dict that \<^verbatim>\<open>json.dumps\<close> serialises; the two messages built from a
  formatted duration keep the duration.\<close>

datatype frame =
    ErrorFrame string
  | DeltaFrame string
  | UsageFrame "(string \<times> int) list"
  | TimeoutFrame real
  | InactiveFrame real

record stream_locals =
  start_time :: real
  last_activity :: real
  response_received :: bool

definition stream_start :: "real \<Rightarrow> stream_locals" where
  "stream_start t0 = \<lparr>start_time = t0, last_activity = t0, response_received = False\<rparr>"

text \<open>One pass through the body of \<^verbatim>\<open>while True\<close>. \<open>t1\<close> is the clock read for \<^verbatim>\<open>elapsed\<close>,
  \<open>t2\<close> the one read after \<^verbatim>\<open>get_response\<close>. The second component is \<open>None\<close> after a
  \<^verbatim>\<open>break\<close> and the locals of the next pass otherwise. \<^verbatim>\<open>save_chat_messages\<close> writes to the
  database only and swallows its exceptions; it is left out.\<close>

definition stream_iteration ::
  "WebLLMRequest \<Rightarrow> real \<Rightarrow> real \<Rightarrow> stream_locals \<Rightarrow> WebLLMBridgeManager
     \<Rightarrow> frame list \<times> stream_locals option \<times> WebLLMBridgeManager" where
  "stream_iteration req t1 t2 loc m =
     (let elapsed = t1 - start_time loc
      in if elapsed \<ge> real_of_int (timeout req) then ([TimeoutFrame elapsed], None, m)
         else
           (case get_response (request_id req) m of
              (Some response, m') \<Rightarrow>
                (let loc' = loc\<lparr>last_activity := t2, response_received := True\<rparr>
                 in if truthy (resp_error response)
                    then ([ErrorFrame (dict_get (resp_error response) [])], None, m')
                    else if resp_content response \<noteq> []
                    then (if resp_done response
                          then (DeltaFrame (resp_content response) #
                                  (if resp_usage response \<noteq> []
                                   then [UsageFrame (resp_usage response)] else []),
                                None, m')
                          else ([DeltaFrame (resp_content response)], Some loc', m'))
                    else ([], Some loc', m'))
            | (None, m') \<Rightarrow>
                (let time_since_activity = t2 - last_activity loc;
                     max_inactive_time = (if \<not> response_received loc then 30 else 10)
                 in if time_since_activity > max_inactive_time
                    then ([InactiveFrame time_since_activity], None, m')
                    else if request_id req \<notin> keys (requests m') then ([], None, m')
                    else ([], Some loc, m'))))"

text \<open>The generator over a schedule: each entry lists what the other threads did since the
  previous pass and the two clock readings of this pass. The boolean tells whether the
  generator has finished (then \<^verbatim>\<open>finally\<close> has cancelled the request); it is \<open>False\<close> when
  the schedule ends with the loop still polling.\<close>

fun stream_webllm_response ::
  "WebLLMRequest \<Rightarrow> stream_locals \<Rightarrow> (op list \<times> real \<times> real) list \<Rightarrow> WebLLMBridgeManager
     \<Rightarrow> frame list \<times> bool \<times> WebLLMBridgeManager" where
  "stream_webllm_response req loc [] m = ([], False, m)"
| "stream_webllm_response req loc ((ops, t1, t2) # sched) m =
     (case stream_iteration req t1 t2 loc (run ops m) of
        (fs, None, m') \<Rightarrow> (fs, True, cancel_request (request_id req) m')
      | (fs, Some loc', m') \<Rightarrow>
          (case stream_webllm_response req loc' sched m' of
             (fs', fin, m'') \<Rightarrow> (fs @ fs', fin, m'')))"

subsection \<open>Concrete inputs\<close>

text \<open>The request data \<^verbatim>\<open>{'content': 'hello', 'stream': s}\<close>, a response with the given content
  and \<^verbatim>\<open>done\<close> flag, and a request created at a given time.\<close>

definition hello_data :: "bool \<Rightarrow> request_data" where
  "hello_data s =
     \<lparr>d_type = None, d_content = Some ''hello'', d_system_prompt = None, d_model = None,
      d_temperature = None, d_max_tokens = None, d_stream = Some s, d_timeout = None,
      d_session_id = None\<rparr>"

definition reply :: "string \<Rightarrow> string \<Rightarrow> bool \<Rightarrow> WebLLMResponse" where
  "reply rid c d =
     \<lparr>resp_request_id = rid, resp_content = c, resp_error = None, resp_usage = [],
      resp_done = d, resp_created_at = 0\<rparr>"

text \<open>Request data without any key, and the body \<^verbatim>\<open>{'content': c}\<close> of a chat call.\<close>

definition no_data :: request_data where
  "no_data =
     \<lparr>d_type = None, d_content = None, d_system_prompt = None, d_model = None,
      d_temperature = None, d_max_tokens = None, d_stream = None, d_timeout = None,
      d_session_id = None\<rparr>"

definition chat_body :: "string \<Rightarrow> chat_data" where
  "chat_body c =
     \<lparr>c_content = Some c, c_user_message = None, c_system_prompt = None, c_model = None,
      c_stream = None, c_temperature = None, c_max_tokens = None, c_timeout = None,
      c_session_id = None\<rparr>"

text \<open>Scenario B: a streaming request, three partial responses and a final response with
  the given content, all submitted before the adapter polls; and the schedule of \<open>n\<close>
  passes of the adapter 200 ms apart during which no other thread acts.\<close>

definition scenario_B :: "string \<Rightarrow> WebLLMBridgeManager" where
  "scenario_B final_content =
     run [CreateRequest ''s'' 0 (hello_data True),
          SubmitResponse ''s'' (reply ''s'' ''a'' False),
          SubmitResponse ''s'' (reply ''s'' ''b'' False),
          SubmitResponse ''s'' (reply ''s'' ''c'' False),
          SubmitResponse ''s'' (reply ''s'' final_content True)] init_manager"

definition polls :: "nat \<Rightarrow> (op list \<times> real \<times> real) list" where
  "polls n = map (\<lambda>k. ([], real k / 5, real k / 5)) [1..<Suc n]"

text \<open>Ten creations that fill the registry; the third request is the oldest.\<close>

definition ten_creations :: "op list" where
  "ten_creations =
     map (\<lambda>(k, t). CreateRequest k t (hello_data False))
       [(''a'', 5), (''b'', 3), (''c'', 1), (''d'', 7), (''e'', 8),
        (''f'', 9), (''g'', 10), (''h'', 11), (''i'', 12), (''j'', 13)]"

section \<open>Auxiliary facts\<close>

subsection \<open>Dicts, removal and insertion\<close>

lemma keys_delete: "keys (AList.delete k d) = keys d - {k}"
  by (auto simp: keys_def AList.delete_eq)

lemma keys_update: "keys (AList.update k v d) = insert k (keys d)"
  by (simp add: keys_def AList.dom_update)

lemma keys_map_of: "k \<in> keys d \<longleftrightarrow> map_of d k \<noteq> None"
  by (simp add: keys_def map_of_eq_None_iff)

lemma requests_remove [simp]: "requests (remove_request rid m) = AList.delete rid (requests m)"
  by (simp add: remove_request_def Let_def split: option.splits)

lemma queues_remove [simp]:
  "response_queues (remove_request rid m) = AList.delete rid (response_queues m)"
  by (simp add: remove_request_def Let_def split: option.splits)

lemma events_remove [simp]:
  "completion_events (remove_request rid m) = AList.delete rid (completion_events m)"
  by (auto simp add: remove_request_def Let_def map_of_eq_None_iff split: option.splits)

lemma heap_remove:
  "event_heap (remove_request rid m) =
     (case map_of (completion_events m) rid of None \<Rightarrow> event_heap m
      | Some ev \<Rightarrow> Event_set ev (event_heap m))"
  by (simp add: remove_request_def Let_def split: option.splits)

lemma length_heap_remove [simp]:
  "length (event_heap (remove_request rid m)) = length (event_heap m)"
  by (simp add: heap_remove Event_set_def split: option.splits)

lemma keys_ok_remove: "keys_ok m \<Longrightarrow> keys_ok (remove_request rid m)"
  by (auto simp: keys_ok_def keys_delete)

lemma requests_insert [simp]:
  "requests (insert_request r m) = AList.update (request_id r) r (requests m)"
  by (simp add: insert_request_def Let_def Event_new_def)

lemma events_insert [simp]:
  "completion_events (insert_request r m) =
     AList.update (request_id r) (length (event_heap m)) (completion_events m)"
  by (simp add: insert_request_def Let_def Event_new_def)

lemma heap_insert [simp]: "event_heap (insert_request r m) = event_heap m @ [False]"
  by (simp add: insert_request_def Let_def Event_new_def)

lemma queues_insert [simp]:
  "response_queues (insert_request r m) =
     (if stream r then AList.update (request_id r) [] (response_queues m) else response_queues m)"
  by (simp add: insert_request_def Let_def Event_new_def)

lemma keys_ok_insert: "keys_ok m \<Longrightarrow> keys_ok (insert_request r m)"
  by (auto simp: keys_ok_def keys_update)

lemma distinct_snd_delete: "distinct (map snd al) \<Longrightarrow> distinct (map snd (AList.delete k al))"
  by (simp add: AList.delete_eq distinct_map_filter)

lemma list_all_delete: "list_all P al \<Longrightarrow> list_all P (AList.delete k al)"
  by (simp add: AList.delete_eq list_all_iff)

lemma set_update_subset: "set (AList.update k v al) \<subseteq> insert (k, v) (set al)"
  by (induction al) auto

lemma list_all_update: "list_all P al \<Longrightarrow> P (k, v) \<Longrightarrow> list_all P (AList.update k v al)"
  using set_update_subset [of k v al] by (auto simp: list_all_iff)

lemma distinct_snd_update:
  "distinct (map snd al) \<Longrightarrow> v \<notin> snd ` set al \<Longrightarrow> distinct (map snd (AList.update k v al))"
  by (induction al) (auto simp: image_iff dest!: subsetD [OF set_update_subset])

lemma wf_remove: "wf m \<Longrightarrow> wf (remove_request rid m)"
  unfolding wf_def
  by (simp add: AList.distinct_delete keys_ok_remove distinct_snd_delete list_all_delete)

lemma wf_insert:
  assumes "wf m"
  shows "wf (insert_request r m)"
proof -
  let ?h = "event_heap m" and ?ce = "completion_events m"
  have bound: "list_all (\<lambda>e. snd e < length ?h) ?ce" and dist: "distinct (map snd ?ce)"
    using assms by (simp_all add: wf_def)
  have "list_all (\<lambda>e. snd e < Suc (length ?h)) ?ce"
    using bound by (auto simp: list_all_iff)
  then have 1: "list_all (\<lambda>e. snd e < Suc (length ?h)) (AList.update (request_id r) (length ?h) ?ce)"
    by (rule list_all_update) simp
  have "length ?h \<notin> snd ` set ?ce"
    using bound by (auto simp: list_all_iff)
  with dist have 2: "distinct (map snd (AList.update (request_id r) (length ?h) ?ce))"
    by (rule distinct_snd_update)
  show ?thesis
    using assms 1 2 by (simp add: wf_def AList.distinct_update keys_ok_insert)
qed

lemma wf_init: "wf init_manager"
  by (simp add: wf_def init_manager_def keys_ok_def keys_def)

subsection \<open>Eviction choice and preservation of well-formedness\<close>

lemma py_min_foldl:
  fixes f :: "'a \<Rightarrow> int"
  shows "foldl (\<lambda>m y. if f y < f m then y else m) x xs \<in> set (x # xs) \<and>
   (\<forall>y \<in> set (x # xs). f (foldl (\<lambda>m y. if f y < f m then y else m) x xs) \<le> f y)"
proof (induction xs arbitrary: x)
  case Nil
  show ?case by simp
next
  case (Cons a xs)
  show ?case
    using Cons.IH [of "if f a < f x then a else x"] by (auto split: if_splits)
qed

lemma py_min_Inr:
  "xs \<noteq> [] \<Longrightarrow> \<exists>e. py_min f xs = Inr e \<and> e \<in> set xs \<and> (\<forall>y \<in> set xs. f e \<le> f y)"
  using py_min_foldl [of f "hd xs" "tl xs"] by (cases xs) auto

lemma oldest_id_Inr:
  assumes "d \<noteq> []"
  shows "\<exists>old r. oldest_id d = Inr old \<and> (old, r) \<in> set d \<and>
           (\<forall>e \<in> set d. created_at r \<le> created_at (snd e))"
proof -
  obtain e where e: "py_min (\<lambda>e. created_at (snd e)) d = Inr e" "e \<in> set d"
    "\<forall>y \<in> set d. created_at (snd e) \<le> created_at (snd y)"
    using py_min_Inr [OF assms, of "\<lambda>e. created_at (snd e)"] by blast
  show ?thesis
    using e by (intro exI [of _ "fst e"] exI [of _ "snd e"]) (simp add: oldest_id_def)
qed

lemma create_request_cases:
  "create_request uuid now d m =
     (if length (requests m) \<ge> MAX_CONCURRENT_REQUESTS
      then (case oldest_id (requests m) of
              Inl e \<Rightarrow> Inl e
            | Inr old \<Rightarrow> Inr (new_request uuid now d,
                             insert_request (new_request uuid now d) (remove_request old m)))
      else Inr (new_request uuid now d, insert_request (new_request uuid now d) m))"
  by (simp add: create_request_def Let_def)

lemma create_request_returns:
  "\<exists>m'. create_request uuid now d m = Inr (new_request uuid now d, m')"
proof (cases "length (requests m) \<ge> MAX_CONCURRENT_REQUESTS")
  case True
  then have "requests m \<noteq> []" by (auto simp: MAX_CONCURRENT_REQUESTS_def)
  from oldest_id_Inr [OF this] obtain old where "oldest_id (requests m) = Inr old" by blast
  with True show ?thesis by (simp add: create_request_cases)
next
  case False
  then show ?thesis by (simp add: create_request_cases)
qed

lemma wf_create: "wf m \<Longrightarrow> create_request uuid now d m = Inr (r, m') \<Longrightarrow> wf m'"
  by (auto simp: create_request_cases wf_insert wf_remove split: if_splits sum.splits)

lemma wf_mark: "wf m \<Longrightarrow> wf (snd (mark_processing rid m))"
  by (auto simp: mark_processing_def wf_def keys_ok_def keys_update keys_map_of
      AList.distinct_update split: option.splits)

lemma wf_signal:
  "wf m \<Longrightarrow> rid \<in> keys (requests m) \<Longrightarrow> wf (snd (signal_completed rid req m))"
  by (auto simp: signal_completed_def wf_def keys_ok_def keys_update Event_set_def
      AList.distinct_update split: option.splits)

lemma wf_queue_update:
  "wf m \<Longrightarrow> rid \<in> keys (requests m) \<Longrightarrow>
   wf (m\<lparr>response_queues := AList.update rid q (response_queues m)\<rparr>)"
  by (auto simp: wf_def keys_ok_def keys_update AList.distinct_update)

lemma wf_submit: "wf m \<Longrightarrow> wf (snd (submit_response rid response m))"
  by (auto simp: submit_response_def Let_def keys_map_of wf_signal wf_queue_update
      split: option.splits)

lemma wf_queue_update_any:
  "wf m \<Longrightarrow> rid \<in> keys (response_queues m) \<Longrightarrow>
   wf (m\<lparr>response_queues := AList.update rid q (response_queues m)\<rparr>)"
  by (auto simp: wf_def keys_ok_def keys_update AList.distinct_update)

lemma wf_get_response: "wf m \<Longrightarrow> wf (snd (get_response rid m))"
proof (cases "map_of (response_queues m) rid")
  case None
  assume "wf m"
  with None show ?thesis by (simp add: get_response_def)
next
  case (Some q)
  assume w: "wf m"
  from Some have "rid \<in> keys (response_queues m)" by (simp add: keys_map_of)
  from wf_queue_update_any [OF w this] w Some show ?thesis
    by (cases q) (simp_all add: get_response_def)
qed

lemma wf_get_final: "wf m \<Longrightarrow> wf (snd (get_final_response rid m))"
proof (cases "map_of (response_queues m) rid")
  case None
  assume "wf m"
  with None show ?thesis by (simp add: get_final_response_def)
next
  case (Some q)
  assume w: "wf m"
  from Some have "rid \<in> keys (response_queues m)" by (simp add: keys_map_of)
  from wf_queue_update_any [OF w this] w Some show ?thesis
    by (cases q) (simp_all add: get_final_response_def wf_remove)
qed

lemma wf_cancel: "wf m \<Longrightarrow> wf (cancel_request rid m)"
  by (simp add: cancel_request_def wf_remove)

lemma wf_foldl_remove: "wf m \<Longrightarrow> wf (foldl (\<lambda>m' k. remove_request k m') m ks)"
  by (induction ks arbitrary: m) (simp_all add: wf_remove)

lemma wf_cleanup: "wf m \<Longrightarrow> wf (cleanup_expired_requests now m)"
  by (simp add: cleanup_expired_requests_def wf_foldl_remove)

lemma wf_step: "wf m \<Longrightarrow> wf (step a m)"
proof (cases a)
  case (CreateRequest uuid now d)
  assume "wf m"
  with CreateRequest show ?thesis
    using create_request_returns [of uuid now d m] by (auto dest: wf_create)
qed (simp_all add: wf_mark wf_submit wf_get_response wf_get_final wf_cancel wf_cleanup)

lemma wf_run: "wf m \<Longrightarrow> wf (run ops m)"
  unfolding run_def by (induction ops arbitrary: m) (simp_all add: wf_step)

lemma reachable_wf: "reachable m \<Longrightarrow> wf m"
  by (induction rule: reachable.induct) (simp_all add: wf_init wf_step)

lemma reachable_run: "reachable m \<Longrightarrow> reachable (run ops m)"
  unfolding run_def by (induction ops arbitrary: m) (simp_all add: reachable_step)

subsection \<open>Capacity and events in well-formed states\<close>

lemma length_delete_distinct:
  "distinct (map fst d) \<Longrightarrow> k \<in> keys d \<Longrightarrow> Suc (length (AList.delete k d)) = length d"
  by (induction d) (auto simp: keys_def image_iff)

lemma length_update_le: "length (AList.update k v d) \<le> Suc (length d)"
  by (induction d) auto

lemma length_update_new: "k \<notin> keys d \<Longrightarrow> AList.update k v d = d @ [(k, v)]"
  by (induction d) (auto simp: keys_def)

lemma length_update_old: "k \<in> keys d \<Longrightarrow> length (AList.update k v d) = length d"
  by (induction d) (auto simp: keys_def)

lemma length_foldl_remove:
  "length (requests (foldl (\<lambda>m' k. remove_request k m') m ks)) \<le> length (requests m)"
proof (induction ks arbitrary: m)
  case Nil
  show ?case by simp
next
  case (Cons k ks)
  have "length (requests (remove_request k m)) \<le> length (requests m)"
    by (simp add: AList.length_delete_le)
  with Cons [of "remove_request k m"] show ?case by simp
qed

lemma request_id_new [simp]: "request_id (new_request uuid now d) = uuid"
  by (simp add: new_request_def)

lemma capacity_create:
  assumes "wf m" and "length (requests m) \<le> MAX_CONCURRENT_REQUESTS"
    and "create_request uuid now d m = Inr (r, m')"
  shows "length (requests m') \<le> MAX_CONCURRENT_REQUESTS"
proof (cases "length (requests m) \<ge> MAX_CONCURRENT_REQUESTS")
  case True
  then have ne: "requests m \<noteq> []" by (auto simp: MAX_CONCURRENT_REQUESTS_def)
  from oldest_id_Inr [OF ne] obtain old r0 where
    old: "oldest_id (requests m) = Inr old" "(old, r0) \<in> set (requests m)" by blast
  then have "old \<in> keys (requests m)" by (force simp: keys_def)
  with assms(1) have "Suc (length (AList.delete old (requests m))) = length (requests m)"
    by (intro length_delete_distinct) (simp_all add: wf_def)
  moreover have "length (AList.update uuid r (AList.delete old (requests m)))
      \<le> Suc (length (AList.delete old (requests m)))"
    by (rule length_update_le)
  ultimately show ?thesis
    using assms(2,3) True old(1) by (auto simp: create_request_cases)
next
  case False
  with assms(3) show ?thesis
    using length_update_le [of uuid r "requests m"] by (auto simp: create_request_cases)
qed

lemma capacity_step:
  assumes "wf m" and "length (requests m) \<le> MAX_CONCURRENT_REQUESTS"
  shows "length (requests (step a m)) \<le> MAX_CONCURRENT_REQUESTS"
proof (cases a)
  case (CreateRequest uuid now d)
  with assms show ?thesis
    using create_request_returns [of uuid now d m] by (auto dest: capacity_create)
next
  case (MarkProcessing rid)
  with assms show ?thesis
    by (auto simp: mark_processing_def keys_map_of length_update_old split: option.splits)
next
  case (SubmitResponse rid response)
  with assms show ?thesis
    by (auto simp: submit_response_def signal_completed_def Let_def keys_map_of length_update_old
        split: option.splits)
next
  case (GetResponse rid)
  with assms show ?thesis
    by (auto simp: get_response_def split: option.splits list.splits)
next
  case (GetFinalResponse rid)
  with assms show ?thesis
    using AList.length_delete_le [of rid "requests m"]
    by (auto simp: get_final_response_def split: option.splits list.splits)
next
  case (CancelRequest rid)
  with assms show ?thesis
    using AList.length_delete_le [of rid "requests m"] by (auto simp: cancel_request_def)
next
  case (CleanupExpired now)
  with assms show ?thesis
    using length_foldl_remove [of m] by (auto simp: cleanup_expired_requests_def intro: order_trans)
qed

lemma reachable_capacity: "reachable m \<Longrightarrow> length (requests m) \<le> MAX_CONCURRENT_REQUESTS"
proof (induction rule: reachable.induct)
  case reachable_init
  show ?case by (simp add: init_manager_def)
next
  case (reachable_step m a)
  then show ?case by (simp add: capacity_step reachable_wf)
qed

lemma wf_event_of:
  "wf m \<Longrightarrow> map_of (requests m) rid = Some req \<Longrightarrow> \<exists>ev. map_of (completion_events m) rid = Some ev"
  using keys_map_of [of rid "requests m"] keys_map_of [of rid "completion_events m"]
  by (auto simp: wf_def keys_ok_def)

lemma Event_is_set_set: "ev < length h \<Longrightarrow> Event_is_set (Event_set ev h) ev"
  by (simp add: Event_is_set_def Event_set_def)

lemma wf_event_bound:
  "wf m \<Longrightarrow> map_of (completion_events m) rid = Some ev \<Longrightarrow> ev < length (event_heap m)"
  by (auto simp: wf_def list_all_iff dest!: map_of_SomeD)

subsection \<open>Evaluation of concrete runs\<close>

lemmas run_eval = run_def create_request_cases insert_request_def Event_new_def new_request_def
  dict_get_def init_manager_def MAX_CONCURRENT_REQUESTS_def DEFAULT_WEBLLM_TIMEOUT_def
  hello_data_def reply_def

lemma stream_new_hello [simp]: "stream (new_request uuid now (hello_data s)) = s"
  by (simp add: new_request_def hello_data_def dict_get_def)

lemma created_at_new [simp]: "created_at (new_request uuid now d) = now"
  by (simp add: new_request_def)

lemma one_request_state:
  "run [CreateRequest ''r'' 0 (hello_data False)] init_manager =
     \<lparr>requests = [(''r'', new_request ''r'' 0 (hello_data False))], response_queues = [],
      completion_events = [(''r'', 0)], event_heap = [False]\<rparr>"
  by (simp add: run_eval)

subsection \<open>Submitting to and reading from a request that does not stream\<close>

lemma submit_response_shape:
  assumes "wf m" and "map_of (requests m) rid = Some req" and "\<not> stream req"
  shows "\<exists>ev. map_of (completion_events m) rid = Some ev \<and> ev < length (event_heap m) \<and>
           submit_response rid response m =
             (Inr True,
              m\<lparr>response_queues := AList.update rid [response] (response_queues m),
                event_heap := Event_set ev (event_heap m),
                requests := AList.update rid (req\<lparr>status := ''completed''\<rparr>) (requests m)\<rparr>)"
proof -
  from wf_event_of [OF assms(1,2)] obtain ev where ev: "map_of (completion_events m) rid = Some ev"
    by blast
  have "ev < length (event_heap m)" using assms(1) ev by (rule wf_event_bound)
  with ev assms(2,3) show ?thesis
    by (intro exI [of _ ev]) (simp add: submit_response_def signal_completed_def)
qed

lemma get_final_empty:
  "map_of (response_queues m) rid = None \<or> map_of (response_queues m) rid = Some [] \<Longrightarrow>
   get_final_response rid m = (None, m)"
  by (auto simp: get_final_response_def)

lemma map_of_delete_same [simp]: "map_of (AList.delete k d) k = None"
  by (simp add: AList.delete_conv')

lemma remove_request_queue_update [simp]:
  "remove_request rid (m\<lparr>response_queues := AList.update rid q (response_queues m)\<rparr>) =
   remove_request rid m"
  by (simp add: remove_request_def Let_def AList.delete_update_same split: option.splits)

lemma get_final_some:
  "map_of (response_queues m) rid = Some (r # q) \<Longrightarrow>
   get_final_response rid m = (Some r, remove_request rid m)"
  by (simp add: get_final_response_def)

lemma hello_request_facts:
  "map_of (requests (run [CreateRequest ''r'' 0 (hello_data False)] init_manager)) ''r'' =
     Some (new_request ''r'' 0 (hello_data False))"
  "\<not> stream (new_request ''r'' 0 (hello_data False))"
  by (simp_all add: one_request_state)

subsection \<open>The cleanup sweep\<close>

lemma requests_foldl_remove:
  "requests (foldl (\<lambda>m' k. remove_request k m') m ks) =
     filter (\<lambda>e. fst e \<notin> set ks) (requests m)"
  by (induction ks arbitrary: m) (auto simp: AList.delete_eq intro: filter_cong)

lemma queues_foldl_remove:
  "response_queues (foldl (\<lambda>m' k. remove_request k m') m ks) =
     filter (\<lambda>e. fst e \<notin> set ks) (response_queues m)"
  by (induction ks arbitrary: m) (auto simp: AList.delete_eq intro: filter_cong)

lemma events_foldl_remove:
  "completion_events (foldl (\<lambda>m' k. remove_request k m') m ks) =
     filter (\<lambda>e. fst e \<notin> set ks) (completion_events m)"
  by (induction ks arbitrary: m) (auto simp: AList.delete_eq intro: filter_cong)

lemma Event_is_set_update:
  "Event_is_set (Event_set e h) ev \<longleftrightarrow> ev < length h \<and> (ev = e \<or> Event_is_set h ev)"
  by (cases "ev = e") (auto simp: Event_is_set_def Event_set_def)

lemma Event_is_set_remove:
  "Event_is_set (event_heap (remove_request k m)) ev \<longleftrightarrow>
     ev < length (event_heap m) \<and>
     (Event_is_set (event_heap m) ev \<or> map_of (completion_events m) k = Some ev)"
proof (cases "map_of (completion_events m) k")
  case None
  then show ?thesis by (auto simp: heap_remove Event_is_set_def)
next
  case (Some e)
  have "Event_is_set (event_heap m) ev \<Longrightarrow> ev < length (event_heap m)"
    by (simp add: Event_is_set_def)
  with Some show ?thesis by (auto simp: heap_remove Event_is_set_update)
qed

lemma heap_foldl_remove:
  "Event_is_set (event_heap (foldl (\<lambda>m' k. remove_request k m') m ks)) ev \<longleftrightarrow>
     ev < length (event_heap m) \<and>
     (Event_is_set (event_heap m) ev \<or> (\<exists>k \<in> set ks. map_of (completion_events m) k = Some ev))"
proof (induction ks arbitrary: m)
  case Nil
  show ?case by (auto simp: Event_is_set_def)
next
  case (Cons k ks)
  have *: "map_of (AList.delete k (completion_events m)) k' =
      (if k' = k then None else map_of (completion_events m) k')" for k'
    by (simp add: AList.delete_conv')
  have "Event_is_set (event_heap (foldl (\<lambda>m' k. remove_request k m') m (k # ks))) ev \<longleftrightarrow>
      ev < length (event_heap m) \<and>
      (Event_is_set (event_heap (remove_request k m)) ev \<or>
       (\<exists>k' \<in> set ks. k' \<noteq> k \<and> map_of (completion_events m) k' = Some ev))"
    by (simp add: Cons.IH * cong: conj_cong)
  also have "\<dots> \<longleftrightarrow> ev < length (event_heap m) \<and>
      (Event_is_set (event_heap m) ev \<or>
       (\<exists>k' \<in> set (k # ks). map_of (completion_events m) k' = Some ev))"
    unfolding Event_is_set_remove by auto
  finally show ?case .
qed

lemma expired_ids_iff:
  "distinct (map fst (requests m)) \<Longrightarrow>
   k \<in> set (expired_ids now m) \<longleftrightarrow> (\<exists>r. map_of (requests m) k = Some r \<and> expired now r)"
  by (auto simp: expired_ids_def image_iff)

lemma events_injective:
  "distinct (map snd ce) \<Longrightarrow> map_of ce k = Some ev \<Longrightarrow> map_of ce k' = Some ev \<Longrightarrow> k = k'"
  by (metis eq_key_imp_eq_value map_of_SomeD distinct_map inj_on_def snd_conv fst_conv)

lemma requests_cleanup:
  assumes "distinct (map fst (requests m))"
  shows "requests (cleanup_expired_requests now m) =
           filter (\<lambda>e. \<not> expired now (snd e)) (requests m)"
proof -
  have "fst e \<notin> set (expired_ids now m) \<longleftrightarrow> \<not> expired now (snd e)"
    if "e \<in> set (requests m)" for e
  proof -
    from that assms have "map_of (requests m) (fst e) = Some (snd e)" by simp
    then show ?thesis by (simp add: expired_ids_iff [OF assms])
  qed
  then show ?thesis
    by (simp add: cleanup_expired_requests_def requests_foldl_remove cong: filter_cong)
qed

subsection \<open>Creation at capacity\<close>

lemma delete_distinct_split:
  "distinct (map fst d) \<Longrightarrow> (k, v) \<in> set d \<Longrightarrow>
   set (AList.delete k d) = set d - {(k, v)}"
  by (induction d) (auto simp: image_iff)

lemma ten_requests_state:
  "requests (run ten_creations init_manager) =
     map (\<lambda>(k, t). (k, new_request k t (hello_data False)))
       [(''a'', 5), (''b'', 3), (''c'', 1), (''d'', 7), (''e'', 8),
        (''f'', 9), (''g'', 10), (''h'', 11), (''i'', 12), (''j'', 13)]"
  by (simp add: ten_creations_def run_def create_request_cases insert_request_def Event_new_def
      MAX_CONCURRENT_REQUESTS_def init_manager_def)


subsection \<open>A removed request stays removed\<close>

lemma keys_filter_notin: "keys (filter (\<lambda>e. fst e \<notin> set ks) d) = keys d - set ks"
  by (auto simp: keys_def)

lemma map_of_filter_notin:
  "k \<notin> set ks \<Longrightarrow> map_of (filter (\<lambda>e. fst e \<notin> set ks) d) k = map_of d k"
  by (induction d) auto

lemma keys_requests_create:
  "create_request uuid now d m = Inr (r, m') \<Longrightarrow>
   keys (requests m') \<subseteq> insert uuid (keys (requests m))"
  by (auto simp: create_request_cases keys_update keys_delete split: if_splits sum.splits)

lemma keys_requests_step:
  "keys (requests (step a m)) \<subseteq> keys (requests m) \<union> {uuid. creates uuid a}"
proof (cases a)
  case (CreateRequest uuid now d)
  then show ?thesis
    using create_request_returns [of uuid now d m] keys_requests_create [of uuid now d m]
    by auto
next
  case (MarkProcessing rid)
  then show ?thesis
    by (auto simp: mark_processing_def keys_update keys_map_of split: option.splits)
next
  case (SubmitResponse rid response)
  then show ?thesis
    by (auto simp: submit_response_def signal_completed_def Let_def keys_update keys_map_of
        split: option.splits)
next
  case (GetResponse rid)
  then show ?thesis by (auto simp: get_response_def split: option.splits list.splits)
next
  case (GetFinalResponse rid)
  then show ?thesis
    by (auto simp: get_final_response_def keys_delete split: option.splits list.splits)
next
  case (CancelRequest rid)
  then show ?thesis by (auto simp: cancel_request_def keys_delete)
next
  case (CleanupExpired now)
  then show ?thesis
    by (auto simp: cleanup_expired_requests_def requests_foldl_remove keys_filter_notin)
qed

lemma gone_stays_gone:
  "rid \<notin> keys (requests m) \<Longrightarrow> \<not> list_ex (creates rid) ops \<Longrightarrow>
   rid \<notin> keys (requests (run ops m))"
proof (induction ops arbitrary: m)
  case Nil
  then show ?case by (simp add: run_def)
next
  case (Cons a ops)
  from Cons.prems have "rid \<notin> keys (requests (step a m))"
    using keys_requests_step [of a m] by auto
  with Cons.IH [of "step a m"] Cons.prems(2) show ?case by (simp add: run_def)
qed

subsection \<open>The queue of a streaming request under one operation\<close>

lemma stream_queue_remove:
  "k \<noteq> rid \<Longrightarrow> stream_queue (remove_request k m) rid = stream_queue m rid"
  by (auto simp: stream_queue_def split: option.splits)

lemma stream_queue_insert:
  "request_id r \<noteq> rid \<Longrightarrow> stream_queue (insert_request r m) rid = stream_queue m rid"
  by (auto simp: stream_queue_def AList.update_conv' split: option.splits)

lemma stream_queue_live: "stream_queue m rid = Some q \<Longrightarrow> rid \<in> keys (requests m)"
  by (auto simp: stream_queue_def keys_map_of split: option.splits if_splits)

lemma stream_queueE:
  assumes "stream_queue m rid = Some q"
  obtains req where "map_of (requests m) rid = Some req" and "stream req"
    and "map_of (response_queues m) rid = Some q"
  using assms by (auto simp: stream_queue_def split: option.splits if_splits)

lemma stream_queue_foldl_remove:
  "rid \<notin> set ks \<Longrightarrow>
   stream_queue (foldl (\<lambda>m' k. remove_request k m') m ks) rid = stream_queue m rid"
  by (induction ks arbitrary: m) (auto simp: stream_queue_remove)

lemma stream_queue_step:
  assumes "stream_queue m rid = Some q" and "\<not> creates rid a"
    and "rid \<in> keys (requests (step a m))"
  shows "\<exists>q'. stream_queue (step a m) rid = Some q' \<and> q @ submits rid a = delivers rid a m @ q'"
proof (cases a)
  case (CreateRequest uuid now d)
  with assms(2) have ne: "uuid \<noteq> rid" by simp
  show ?thesis
  proof (cases "length (requests m) \<ge> MAX_CONCURRENT_REQUESTS")
    case True
    from create_request_returns [of uuid now d m] obtain m' where
      m': "create_request uuid now d m = Inr (new_request uuid now d, m')" by blast
    with True obtain old where old: "oldest_id (requests m) = Inr old"
      "m' = insert_request (new_request uuid now d) (remove_request old m)"
      by (auto simp: create_request_cases split: sum.splits)
    have "old \<noteq> rid"
    proof
      assume "old = rid"
      with old(2) ne have "rid \<notin> keys (requests m')" by (simp add: keys_update keys_delete)
      with assms(3) CreateRequest m' show False by simp
    qed
    with ne old(2) assms(1) have "stream_queue m' rid = Some q"
      by (simp add: stream_queue_insert stream_queue_remove)
    with CreateRequest m' show ?thesis by simp
  next
    case False
    with ne assms(1) CreateRequest show ?thesis
      by (simp add: create_request_cases stream_queue_insert)
  qed
next
  case (MarkProcessing k)
  from assms(1) obtain req where req: "map_of (requests m) rid = Some req" "stream req"
    "map_of (response_queues m) rid = Some q" by (rule stream_queueE)
  show ?thesis
  proof (cases "map_of (requests m) k")
    case None
    with MarkProcessing assms(1) show ?thesis by (simp add: mark_processing_def)
  next
    case (Some r)
    with MarkProcessing req show ?thesis
      by (auto simp: mark_processing_def stream_queue_def AList.update_conv')
  qed
next
  case (SubmitResponse k response)
  from assms(1) obtain req where req: "map_of (requests m) rid = Some req" "stream req"
    "map_of (response_queues m) rid = Some q" by (rule stream_queueE)
  show ?thesis
  proof (cases "k = rid")
    case True
    with req have "stream_queue (snd (submit_response k response m)) rid = Some (q @ [response])"
      by (simp add: submit_response_def signal_completed_def Let_def stream_queue_def
          AList.update_conv' split: option.splits)
    with True SubmitResponse show ?thesis by simp
  next
    case False
    have "map_of (requests (snd (submit_response k response m))) rid = map_of (requests m) rid"
      "map_of (response_queues (snd (submit_response k response m))) rid =
         map_of (response_queues m) rid"
      using False
      by (simp_all add: submit_response_def signal_completed_def Let_def AList.update_conv'
          split: option.splits)
    then have "stream_queue (snd (submit_response k response m)) rid = stream_queue m rid"
      by (simp add: stream_queue_def split: option.splits)
    with False SubmitResponse assms(1) show ?thesis by simp
  qed
next
  case (GetResponse k)
  from assms(1) obtain req where req: "map_of (requests m) rid = Some req" "stream req"
    "map_of (response_queues m) rid = Some q" by (rule stream_queueE)
  show ?thesis
  proof (cases "k = rid")
    case True
    with req GetResponse show ?thesis
      by (cases q) (simp_all add: get_response_def stream_queue_def AList.update_conv')
  next
    case False
    have "map_of (requests (snd (get_response k m))) rid = map_of (requests m) rid"
      "map_of (response_queues (snd (get_response k m))) rid = map_of (response_queues m) rid"
      using False
      by (simp_all add: get_response_def AList.update_conv' split: option.splits list.splits)
    then have "stream_queue (snd (get_response k m)) rid = stream_queue m rid"
      by (simp add: stream_queue_def split: option.splits)
    with False GetResponse assms(1) show ?thesis by simp
  qed
next
  case (GetFinalResponse k)
  show ?thesis
  proof (cases "k = rid")
    case True
    with assms(1) have q: "map_of (response_queues m) k = Some q"
      by (auto simp: stream_queue_def split: option.splits if_splits)
    show ?thesis
    proof (cases q)
      case Nil
      with q assms(1) GetFinalResponse show ?thesis by (simp add: get_final_response_def)
    next
      case (Cons r q0)
      with q have "get_final_response k m = (Some r, remove_request k m)"
        by (simp add: get_final_some)
      with assms(3) GetFinalResponse True show ?thesis by (simp add: keys_delete)
    qed
  next
    case False
    with assms(1) GetFinalResponse show ?thesis
      by (auto simp: get_final_response_def stream_queue_remove
          split: option.splits list.splits)
  qed
next
  case (CancelRequest k)
  show ?thesis
  proof (cases "k = rid")
    case True
    with assms(1,3) CancelRequest show ?thesis
      by (auto simp: cancel_request_def keys_delete dest: stream_queue_live)
  next
    case False
    with assms(1) CancelRequest show ?thesis
      by (simp add: cancel_request_def stream_queue_remove)
  qed
next
  case (CleanupExpired now)
  with assms(3) have "rid \<notin> set (expired_ids now m)"
    by (simp add: cleanup_expired_requests_def requests_foldl_remove keys_filter_notin)
  with assms(1) CleanupExpired show ?thesis
    by (simp add: cleanup_expired_requests_def stream_queue_foldl_remove)
qed

lemma one_stream_state:
  "run [CreateRequest ''s'' 0 (hello_data True)] init_manager =
     \<lparr>requests = [(''s'', new_request ''s'' 0 (hello_data True))],
      response_queues = [(''s'', [])],
      completion_events = [(''s'', 0)], event_heap = [False]\<rparr>"
  by (simp add: run_eval)

subsection \<open>The status of a request under one operation\<close>

lemma status_of_remove:
  "status_of (remove_request k m) rid = (if k = rid then None else status_of m rid)"
  by (simp add: status_of_def)

lemma status_of_insert:
  "request_id r \<noteq> rid \<Longrightarrow> status_of (insert_request r m) rid = status_of m rid"
  by (simp add: status_of_def AList.update_conv')

lemma map_of_filter_in:
  "k \<in> set ks \<Longrightarrow> map_of (filter (\<lambda>e. fst e \<notin> set ks) d) k = None"
  by (induction d) auto

lemma status_of_foldl_remove:
  "status_of (foldl (\<lambda>m' k. remove_request k m') m ks) rid =
     (if rid \<in> set ks then None else status_of m rid)"
  by (simp add: status_of_def requests_foldl_remove map_of_filter_in map_of_filter_notin)

lemma status_of_step:
  assumes "\<not> creates rid a"
  shows "status_of (step a m) rid = None \<or> status_of (step a m) rid = status_of m rid \<or>
         status_of m rid \<noteq> None \<and>
           (a = MarkProcessing rid \<and> status_of (step a m) rid = Some ''processing'' \<or>
            (\<exists>resp. a = SubmitResponse rid resp) \<and> status_of (step a m) rid = Some ''completed'')"
proof (cases a)
  case (CreateRequest uuid now d)
  with assms have ne: "uuid \<noteq> rid" by simp
  from create_request_returns [of uuid now d m] obtain m' where
    m': "create_request uuid now d m = Inr (new_request uuid now d, m')" by blast
  then have "status_of m' rid = None \<or> status_of m' rid = status_of m rid"
    using ne
    by (auto simp: create_request_cases status_of_insert status_of_remove
        split: if_splits sum.splits)
  with CreateRequest m' show ?thesis by simp
next
  case (MarkProcessing k)
  then show ?thesis
    by (auto simp: mark_processing_def status_of_def AList.update_conv' split: option.splits)
next
  case (SubmitResponse k response)
  then show ?thesis
    by (auto simp: submit_response_def signal_completed_def Let_def status_of_def
        AList.update_conv' split: option.splits)
next
  case (GetResponse k)
  then show ?thesis
    by (auto simp: get_response_def status_of_def split: option.splits list.splits)
next
  case (GetFinalResponse k)
  then show ?thesis
    by (auto simp: get_final_response_def status_of_remove split: option.splits list.splits)
next
  case (CancelRequest k)
  then show ?thesis by (auto simp: cancel_request_def status_of_remove)
next
  case (CleanupExpired now)
  then show ?thesis by (simp add: cleanup_expired_requests_def status_of_foldl_remove)
qed

lemma mark_processing_sets:
  "status_of m rid \<noteq> None \<Longrightarrow>
   mark_processing rid m = (True, snd (mark_processing rid m)) \<and>
   status_of (snd (mark_processing rid m)) rid = Some ''processing''"
  by (auto simp: mark_processing_def status_of_def AList.update_conv' split: option.splits)

lemma rank_completed: "rank s \<le> rank ''completed''"
  by (simp add: rank_def)

lemma status_of_step_cases:
  assumes "\<not> creates rid a"
  obtains (gone) "status_of (step a m) rid = None"
    | (same) "status_of (step a m) rid = status_of m rid"
    | (mark) "status_of m rid \<noteq> None" "a = MarkProcessing rid"
        "status_of (step a m) rid = Some ''processing''"
    | (subm) "status_of m rid \<noteq> None" "\<exists>resp. a = SubmitResponse rid resp"
        "status_of (step a m) rid = Some ''completed''"
  using status_of_step [OF assms, of m] by (elim disjE conjE) (rule gone same mark subm; assumption)+

subsection \<open>Removal and the completion event\<close>

lemma wf_live_event:
  "wf m \<Longrightarrow> map_of (completion_events m) rid = Some ev \<Longrightarrow> rid \<in> keys (requests m)"
  by (auto simp: wf_def keys_ok_def keys_map_of)

lemma removed_event_set:
  assumes "wf m" and "map_of (completion_events m) rid = Some ev"
    and "rid \<notin> keys (requests (step a m))"
  shows "Event_is_set (event_heap (step a m)) ev"
proof -
  have b: "ev < length (event_heap m)" using assms(1,2) by (rule wf_event_bound)
  have live: "rid \<in> keys (requests m)" using assms(1,2) by (rule wf_live_event)
  have rm: "Event_is_set (event_heap (remove_request rid m)) ev"
    using b assms(2) by (simp add: Event_is_set_remove)
  show ?thesis
  proof (cases a)
    case (CreateRequest uuid now d)
    from create_request_returns [of uuid now d m] obtain m' where
      m': "create_request uuid now d m = Inr (new_request uuid now d, m')" by blast
    with CreateRequest assms(3) have gone: "rid \<notin> keys (requests m')" by simp
    show ?thesis
    proof (cases "length (requests m) \<ge> MAX_CONCURRENT_REQUESTS")
      case True
      with m' obtain old where old: "oldest_id (requests m) = Inr old"
        "m' = insert_request (new_request uuid now d) (remove_request old m)"
        by (auto simp: create_request_cases split: sum.splits)
      with gone live have "old = rid" by (auto simp: keys_update keys_delete)
      with old(2) rm have "Event_is_set (event_heap m') ev"
        by (simp add: Event_is_set_def nth_append)
      with CreateRequest m' show ?thesis by simp
    next
      case False
      with m' gone live show ?thesis by (auto simp: create_request_cases keys_update)
    qed
  next
    case (MarkProcessing k)
    with assms(3) live show ?thesis
      by (auto simp: mark_processing_def keys_update split: option.splits)
  next
    case (SubmitResponse k response)
    with assms(3) live show ?thesis
      by (auto simp: submit_response_def signal_completed_def Let_def keys_update
          split: option.splits if_splits)
  next
    case (GetResponse k)
    with assms(3) live show ?thesis
      by (auto simp: get_response_def split: option.splits list.splits)
  next
    case (GetFinalResponse k)
    with assms(3) live rm show ?thesis
      by (cases "k = rid")
         (auto simp: get_final_response_def keys_delete split: option.splits list.splits)
  next
    case (CancelRequest k)
    with assms(3) live rm show ?thesis
      by (cases "k = rid") (auto simp: cancel_request_def keys_delete)
  next
    case (CleanupExpired now)
    with assms(3) live have "rid \<in> set (expired_ids now m)"
      by (simp add: cleanup_expired_requests_def requests_foldl_remove keys_filter_notin)
    with assms(2) b CleanupExpired show ?thesis
      by (auto simp: cleanup_expired_requests_def heap_foldl_remove)
  qed
qed

lemma Event_wait_reaches:
  "list_all (\<lambda>p. fst p < t) pre \<Longrightarrow> tm < t \<Longrightarrow> Event_is_set h ev \<Longrightarrow>
   Event_wait ev t (pre @ (tm, h) # rest)"
  by (induction pre) auto

lemma removed_no_event:
  "wf m \<Longrightarrow> rid \<notin> keys (requests m) \<Longrightarrow> map_of (completion_events m) rid = None"
proof -
  assume "wf m" and "rid \<notin> keys (requests m)"
  then have "rid \<notin> keys (completion_events m)" by (simp add: wf_def keys_ok_def)
  then show ?thesis by (simp add: keys_map_of)
qed

lemma two_request_state:
  "run [CreateRequest ''r'' 0 (hello_data False),
        CreateRequest ''y'' 500000000 (hello_data False)] init_manager =
     \<lparr>requests = [(''r'', new_request ''r'' 0 (hello_data False)),
                  (''y'', new_request ''y'' 500000000 (hello_data False))],
      response_queues = [],
      completion_events = [(''r'', 0), (''y'', 1)],
      event_heap = [False, False]\<rparr>"
  by (simp add: run_eval)

lemma timeout_new_hello [simp]: "timeout (new_request uuid now (hello_data s)) = 180"
  by (simp add: new_request_def dict_get_def hello_data_def DEFAULT_WEBLLM_TIMEOUT_def)

subsection \<open>Creation never rejects\<close>

lemma create_request_registers:
  "\<exists>m'. create_request uuid now d m = Inr (new_request uuid now d, m') \<and>
        map_of (requests m') uuid = Some (new_request uuid now d)"
proof -
  from create_request_returns [of uuid now d m] obtain m' where
    m': "create_request uuid now d m = Inr (new_request uuid now d, m')" by blast
  then have "map_of (requests m') uuid = Some (new_request uuid now d)"
    by (auto simp: create_request_cases AList.update_conv' split: if_splits sum.splits)
  with m' show ?thesis by blast
qed

subsection \<open>A pass of the adapter over a response without content\<close>

lemma stream_iteration_empty_final:
  assumes "get_response (request_id req) m = (Some response, m')"
    and "\<not> truthy (resp_error response)" and "resp_content response = []"
    and "t1 - start_time loc < real_of_int (timeout req)"
  shows "stream_iteration req t1 t2 loc m =
           ([], Some (loc\<lparr>last_activity := t2, response_received := True\<rparr>), m')"
  using assms by (simp add: stream_iteration_def Let_def)

section \<open>The claims\<close>

text \<open>
  Claim C4. For a live request that is not streaming, \<^verbatim>\<open>submit_response\<close> replaces the queue
  of the request by the one submitted response, sets the completion event and sets the
  status to \<^verbatim>\<open>completed\<close>, whatever the \<^verbatim>\<open>done\<close> flag of the response; for an unknown id it
  returns \<^verbatim>\<open>False\<close> and leaves the manager as it is.
\<close>

theorem submit_response_non_streaming:
  assumes "reachable m"
  shows "(map_of (requests m) rid = None \<longrightarrow> submit_response rid response m = (Inr False, m)) \<and>
         (\<forall>req. map_of (requests m) rid = Some req \<and> \<not> stream req \<longrightarrow>
            (\<exists>ev. map_of (completion_events m) rid = Some ev \<and>
               submit_response rid response m =
                 (Inr True,
                  m\<lparr>response_queues := AList.update rid [response] (response_queues m),
                    event_heap := Event_set ev (event_heap m),
                    requests := AList.update rid (req\<lparr>status := ''completed''\<rparr>) (requests m)\<rparr>) \<and>
               map_of (response_queues (snd (submit_response rid response m))) rid = Some [response] \<and>
               Event_is_set (event_heap (snd (submit_response rid response m))) ev \<and>
               status_of (snd (submit_response rid response m)) rid = Some ''completed''))"
proof (intro conjI allI impI)
  assume "map_of (requests m) rid = None"
  then show "submit_response rid response m = (Inr False, m)"
    by (simp add: submit_response_def)
next
  fix req
  assume a: "map_of (requests m) rid = Some req \<and> \<not> stream req"
  have w: "wf m" using assms by (rule reachable_wf)
  from wf_event_of [OF w] a obtain ev where ev: "map_of (completion_events m) rid = Some ev"
    by blast
  have b: "ev < length (event_heap m)" using w ev by (rule wf_event_bound)
  show "\<exists>ev. map_of (completion_events m) rid = Some ev \<and>
               submit_response rid response m =
                 (Inr True,
                  m\<lparr>response_queues := AList.update rid [response] (response_queues m),
                    event_heap := Event_set ev (event_heap m),
                    requests := AList.update rid (req\<lparr>status := ''completed''\<rparr>) (requests m)\<rparr>) \<and>
               map_of (response_queues (snd (submit_response rid response m))) rid = Some [response] \<and>
               Event_is_set (event_heap (snd (submit_response rid response m))) ev \<and>
               status_of (snd (submit_response rid response m)) rid = Some ''completed''"
    using a ev b
    by (intro exI [of _ ev])
       (simp add: submit_response_def signal_completed_def status_of_def AList.update_conv'
          Event_is_set_set)
qed

theorem submit_response_non_streaming_witness:
  "submit_response ''zz'' (reply ''zz'' ''hi there'' False)
       (run [CreateRequest ''r'' 0 (hello_data False)] init_manager) =
     (Inr False, run [CreateRequest ''r'' 0 (hello_data False)] init_manager) \<and>
   submit_response ''r'' (reply ''r'' ''hi there'' False)
       (run [CreateRequest ''r'' 0 (hello_data False)] init_manager) =
     (Inr True,
      \<lparr>requests = [(''r'', (new_request ''r'' 0 (hello_data False))\<lparr>status := ''completed''\<rparr>)],
       response_queues = [(''r'', [reply ''r'' ''hi there'' False])],
       completion_events = [(''r'', 0)], event_heap = [True]\<rparr>)"
proof -
  let ?m = "run [CreateRequest ''r'' 0 (hello_data False)] init_manager"
  have r: "reachable ?m" by (intro reachable_run reachable_init)
  have a: "map_of (requests ?m) ''zz'' = None"
    and b: "map_of (requests ?m) ''r'' = Some (new_request ''r'' 0 (hello_data False))"
    and c: "\<not> stream (new_request ''r'' 0 (hello_data False))"
    by (simp_all add: one_request_state)
  from submit_response_non_streaming [OF r, of "''zz''" "reply ''zz'' ''hi there'' False"] a
  have 1: "submit_response ''zz'' (reply ''zz'' ''hi there'' False) ?m = (Inr False, ?m)"
    by blast
  from submit_response_non_streaming [OF r, of "''r''" "reply ''r'' ''hi there'' False"] b c
  obtain ev where "map_of (completion_events ?m) ''r'' = Some ev"
    and "submit_response ''r'' (reply ''r'' ''hi there'' False) ?m =
      (Inr True,
       ?m\<lparr>response_queues := AList.update ''r'' [reply ''r'' ''hi there'' False] (response_queues ?m),
          event_heap := Event_set ev (event_heap ?m),
          requests := AList.update ''r'' ((new_request ''r'' 0 (hello_data False))\<lparr>status := ''completed''\<rparr>) (requests ?m)\<rparr>)"
    by blast
  then have 2: "submit_response ''r'' (reply ''r'' ''hi there'' False) ?m =
     (Inr True,
      \<lparr>requests = [(''r'', (new_request ''r'' 0 (hello_data False))\<lparr>status := ''completed''\<rparr>)],
       response_queues = [(''r'', [reply ''r'' ''hi there'' False])],
       completion_events = [(''r'', 0)], event_heap = [True]\<rparr>)"
    by (simp add: one_request_state Event_set_def)
  from 1 2 show ?thesis by (rule conjI)
qed

text \<open>
  Claim C7. Once the one response of a request that does not stream has been submitted,
  \<^verbatim>\<open>get_final_response\<close> returns that response and removes the whole registry entry: the id
  is in none of the three dicts, a second call returns \<^verbatim>\<open>None\<close>, and \<^verbatim>\<open>get_status\<close> counts one
  request less. While nothing has arrived (no queue, or an empty one) it returns \<^verbatim>\<open>None\<close>
  and changes nothing.
\<close>

theorem get_final_response_removes:
  assumes "reachable m" and "map_of (requests m) rid = Some req" and "\<not> stream req"
    and "m1 = snd (submit_response rid response m)"
    and "m2 = snd (get_final_response rid m1)"
  shows "get_final_response rid m1 = (Some response, m2) \<and>
         rid \<notin> keys (requests m2) \<and> rid \<notin> keys (response_queues m2) \<and>
         rid \<notin> keys (completion_events m2) \<and>
         get_final_response rid m2 = (None, m2) \<and>
         requests m2 = AList.delete rid (requests m1) \<and>
         Suc (total_requests (get_status m2)) = total_requests (get_status m1) \<and>
         (map_of (response_queues m) rid = None \<or> map_of (response_queues m) rid = Some []
            \<longrightarrow> get_final_response rid m = (None, m))"
proof -
  have w: "wf m" using assms(1) by (rule reachable_wf)
  from submit_response_shape [OF w assms(2,3), of response] obtain ev where
    m1: "m1 = m\<lparr>response_queues := AList.update rid [response] (response_queues m),
                 event_heap := Event_set ev (event_heap m),
                 requests := AList.update rid (req\<lparr>status := ''completed''\<rparr>) (requests m)\<rparr>"
    using assms(4) by auto
  have q: "map_of (response_queues m1) rid = Some [response]"
    by (simp add: m1 AList.update_conv')
  have w1: "wf m1" using w assms(4) by (simp add: wf_submit)
  have g: "get_final_response rid m1 = (Some response, remove_request rid m1)"
    using q by (rule get_final_some)
  then have m2: "m2 = remove_request rid m1" using assms(5) by simp
  have in1: "rid \<in> keys (requests m1)" by (simp add: m1 keys_update)
  have d1: "distinct (map fst (requests m1))" using w1 by (simp add: wf_def)
  have len: "Suc (length (requests m2)) = length (requests m1)"
    using length_delete_distinct [OF d1 in1] by (simp add: m2)
  have none: "map_of (response_queues m2) rid = None" by (simp add: m2)
  show ?thesis
    using g len none get_final_empty [of m rid] get_final_empty [of m2 rid]
    by (simp add: m2 keys_delete get_status_def)
qed

theorem get_final_response_removes_witness:
  "get_final_response ''r''
       (snd (submit_response ''r'' (reply ''r'' ''hi there'' False)
          (run [CreateRequest ''r'' 0 (hello_data False)] init_manager))) =
     (Some (reply ''r'' ''hi there'' False),
      \<lparr>requests = [], response_queues = [], completion_events = [], event_heap = [True]\<rparr>) \<and>
   get_final_response ''r''
       \<lparr>requests = [], response_queues = [], completion_events = [], event_heap = [True]\<rparr> =
     (None, \<lparr>requests = [], response_queues = [], completion_events = [], event_heap = [True]\<rparr>) \<and>
   total_requests (get_status
       \<lparr>requests = [], response_queues = [], completion_events = [], event_heap = [True]\<rparr>) = 0 \<and>
   get_final_response ''r'' (run [CreateRequest ''r'' 0 (hello_data False)] init_manager) =
     (None, run [CreateRequest ''r'' 0 (hello_data False)] init_manager)"
proof -
  let ?m = "run [CreateRequest ''r'' 0 (hello_data False)] init_manager"
  let ?m1 = "snd (submit_response ''r'' (reply ''r'' ''hi there'' False) ?m)"
  let ?m2 = "snd (get_final_response ''r'' ?m1)"
  have r: "reachable ?m" by (intro reachable_run reachable_init)
  note t = get_final_response_removes [OF r hello_request_facts refl refl,
      of "reply ''r'' ''hi there'' False"]
  have e1: "?m1 = \<lparr>requests = [(''r'', (new_request ''r'' 0 (hello_data False))\<lparr>status := ''completed''\<rparr>)],
       response_queues = [(''r'', [reply ''r'' ''hi there'' False])],
       completion_events = [(''r'', 0)], event_heap = [True]\<rparr>"
    by (simp add: one_request_state submit_response_def signal_completed_def Event_set_def
        hello_request_facts)
  have e2: "?m2 = \<lparr>requests = [], response_queues = [], completion_events = [], event_heap = [True]\<rparr>"
    unfolding e1 by (simp add: get_final_response_def remove_request_def Event_set_def)
  have q: "map_of (response_queues ?m) ''r'' = None" by (simp add: one_request_state)
  from t q show ?thesis unfolding e2 by (simp add: get_status_def e1)
qed

text \<open>
  Claim C10. After every operation of the manager (\<^verbatim>\<open>create_request\<close>, \<^verbatim>\<open>mark_processing\<close>,
  \<^verbatim>\<open>submit_response\<close>, \<^verbatim>\<open>get_response\<close>, \<^verbatim>\<open>get_final_response\<close>, \<^verbatim>\<open>cancel_request\<close> and the
  cleanup sweep), started in any state the manager can reach, the request dict and the
  dict of completion events have the same keys, each key once, and every id with a
  response queue is a key of the request dict.
\<close>

theorem registry_keys_agree:
  assumes "reachable m"
  shows "keys (requests (step a m)) = keys (completion_events (step a m)) \<and>
         distinct (map fst (requests (step a m))) \<and>
         distinct (map fst (completion_events (step a m))) \<and>
         keys (response_queues (step a m)) \<subseteq> keys (requests (step a m))"
proof -
  have "wf (step a m)" using assms by (intro wf_step reachable_wf)
  then show ?thesis by (auto simp: wf_def keys_ok_def)
qed

theorem registry_keys_agree_witness:
  "keys (requests (step (CreateRequest ''r'' 0 (hello_data True)) init_manager)) =
     keys (completion_events (step (CreateRequest ''r'' 0 (hello_data True)) init_manager)) \<and>
   distinct (map fst (requests (step (CreateRequest ''r'' 0 (hello_data True)) init_manager))) \<and>
   distinct (map fst (completion_events (step (CreateRequest ''r'' 0 (hello_data True)) init_manager))) \<and>
   keys (response_queues (step (CreateRequest ''r'' 0 (hello_data True)) init_manager))
     \<subseteq> keys (requests (step (CreateRequest ''r'' 0 (hello_data True)) init_manager))"
  by (rule registry_keys_agree [OF reachable_init])

text \<open>
  Claim C8. A cleanup cycle run at time \<open>now\<close> removes exactly the registry entries whose age
  \<open>now - created_at\<close> exceeds the TTL (600 seconds, counted in microseconds): the requests
  that stay are the unexpired ones in their order, queues and completion events are dropped
  for the expired ids only, the event of an entry is set afterwards exactly if it was set
  before or the entry was removed, and a request created at \<open>T\<close> is therefore absent after a
  cycle run at any time later than \<open>T + TTL\<close>.
\<close>

theorem cleanup_removes_expired:
  assumes "reachable m"
  shows "requests (cleanup_expired_requests now m) =
           filter (\<lambda>e. \<not> expired now (snd e)) (requests m) \<and>
         response_queues (cleanup_expired_requests now m) =
           filter (\<lambda>e. fst e \<notin> set (expired_ids now m)) (response_queues m) \<and>
         completion_events (cleanup_expired_requests now m) =
           filter (\<lambda>e. fst e \<notin> set (expired_ids now m)) (completion_events m) \<and>
         (\<forall>k. k \<in> set (expired_ids now m) \<longleftrightarrow>
              (\<exists>r. map_of (requests m) k = Some r \<and> now - created_at r > REQUEST_TTL * 1000000)) \<and>
         (\<forall>k ev. map_of (completion_events m) k = Some ev \<longrightarrow>
              (Event_is_set (event_heap (cleanup_expired_requests now m)) ev \<longleftrightarrow>
                 Event_is_set (event_heap m) ev \<or> k \<in> set (expired_ids now m))) \<and>
         (\<forall>r. map_of (requests m) rid = Some r \<and> created_at r + REQUEST_TTL * 1000000 < now
              \<longrightarrow> rid \<notin> keys (requests (cleanup_expired_requests now m)))"
proof -
  have w: "wf m" using assms by (rule reachable_wf)
  then have d: "distinct (map fst (requests m))" and inj: "distinct (map snd (completion_events m))"
    by (simp_all add: wf_def)
  have ids: "k \<in> set (expired_ids now m) \<longleftrightarrow>
      (\<exists>r. map_of (requests m) k = Some r \<and> now - created_at r > REQUEST_TTL * 1000000)" for k
    by (simp add: expired_ids_iff [OF d] expired_def)
  have flag: "Event_is_set (event_heap (cleanup_expired_requests now m)) ev \<longleftrightarrow>
      Event_is_set (event_heap m) ev \<or> k \<in> set (expired_ids now m)"
    if "map_of (completion_events m) k = Some ev" for k ev
  proof -
    have b: "ev < length (event_heap m)" using w that by (rule wf_event_bound)
    have "(\<exists>k' \<in> set (expired_ids now m). map_of (completion_events m) k' = Some ev) \<longleftrightarrow>
        k \<in> set (expired_ids now m)"
      using events_injective [OF inj that] that by blast
    with b show ?thesis
      by (simp add: cleanup_expired_requests_def heap_foldl_remove)
  qed
  have gone: "rid \<notin> keys (requests (cleanup_expired_requests now m))"
    if "map_of (requests m) rid = Some r \<and> created_at r + REQUEST_TTL * 1000000 < now" for r
  proof -
    from that have "rid \<in> set (expired_ids now m)" by (simp add: ids)
    then show ?thesis
      by (auto simp: cleanup_expired_requests_def requests_foldl_remove keys_def)
  qed
  have q: "response_queues (cleanup_expired_requests now m) =
      filter (\<lambda>e. fst e \<notin> set (expired_ids now m)) (response_queues m)"
    and e: "completion_events (cleanup_expired_requests now m) =
      filter (\<lambda>e. fst e \<notin> set (expired_ids now m)) (completion_events m)"
    by (simp_all add: cleanup_expired_requests_def queues_foldl_remove events_foldl_remove)
  show ?thesis
  proof (intro conjI allI impI)
    show "requests (cleanup_expired_requests now m) =
        filter (\<lambda>e. \<not> expired now (snd e)) (requests m)"
      by (rule requests_cleanup [OF d])
  qed (fact q e ids | rule flag gone, assumption)+
qed

theorem cleanup_removes_expired_witness:
  "requests (cleanup_expired_requests 700000000
       (run [CreateRequest ''r'' 0 (hello_data False),
             CreateRequest ''y'' 500000000 (hello_data False)] init_manager)) =
     [(''y'', new_request ''y'' 500000000 (hello_data False))] \<and>
   Event_is_set (event_heap (cleanup_expired_requests 700000000
       (run [CreateRequest ''r'' 0 (hello_data False),
             CreateRequest ''y'' 500000000 (hello_data False)] init_manager))) 0 \<and>
   \<not> Event_is_set (event_heap (cleanup_expired_requests 700000000
       (run [CreateRequest ''r'' 0 (hello_data False),
             CreateRequest ''y'' 500000000 (hello_data False)] init_manager))) 1 \<and>
   ''r'' \<notin> keys (requests (cleanup_expired_requests 700000000
       (run [CreateRequest ''r'' 0 (hello_data False),
             CreateRequest ''y'' 500000000 (hello_data False)] init_manager)))"
proof -
  let ?m = "run [CreateRequest ''r'' 0 (hello_data False),
                 CreateRequest ''y'' 500000000 (hello_data False)] init_manager"
  have r: "reachable ?m" by (intro reachable_run reachable_init)
  have m: "?m = \<lparr>requests = [(''r'', new_request ''r'' 0 (hello_data False)),
                               (''y'', new_request ''y'' 500000000 (hello_data False))],
                  response_queues = [],
                  completion_events = [(''r'', 0), (''y'', 1)],
                  event_heap = [False, False]\<rparr>"
    by (simp add: run_eval)
  have c: "created_at (new_request ''r'' 0 (hello_data False)) = 0"
    "created_at (new_request ''y'' 500000000 (hello_data False)) = 500000000"
    by (simp_all add: new_request_def)
  note t = cleanup_removes_expired [OF r, of 700000000 "''r''"]
  from t have "requests (cleanup_expired_requests 700000000 ?m) =
      filter (\<lambda>e. \<not> expired 700000000 (snd e)) (requests ?m)"
    by blast
  also have "\<dots> = [(''y'', new_request ''y'' 500000000 (hello_data False))]"
    by (simp add: m expired_def REQUEST_TTL_def c)
  finally have 1: "requests (cleanup_expired_requests 700000000 ?m) =
      [(''y'', new_request ''y'' 500000000 (hello_data False))]" .
  from t have ids: "\<And>k. k \<in> set (expired_ids 700000000 ?m) \<longleftrightarrow>
      (\<exists>r. map_of (requests ?m) k = Some r \<and> 700000000 - created_at r > REQUEST_TTL * 1000000)"
    by blast
  have ir: "''r'' \<in> set (expired_ids 700000000 ?m)"
    and iy: "''y'' \<notin> set (expired_ids 700000000 ?m)"
    unfolding ids by (simp_all add: m REQUEST_TTL_def c)
  from t have fl: "\<And>k ev. map_of (completion_events ?m) k = Some ev \<Longrightarrow>
      Event_is_set (event_heap (cleanup_expired_requests 700000000 ?m)) ev \<longleftrightarrow>
        Event_is_set (event_heap ?m) ev \<or> k \<in> set (expired_ids 700000000 ?m)"
    by blast
  have 2: "Event_is_set (event_heap (cleanup_expired_requests 700000000 ?m)) 0"
    using fl [of "''r''" 0] ir by (simp add: m)
  have 3: "\<not> Event_is_set (event_heap (cleanup_expired_requests 700000000 ?m)) 1"
    using fl [of "''y''" 1] iy by (simp add: m Event_is_set_def)
  have 4: "''r'' \<notin> keys (requests (cleanup_expired_requests 700000000 ?m))"
    unfolding 1 by (simp add: keys_def)
  from 1 2 3 4 show ?thesis by blast
qed

text \<open>
  Claim C5. The capacity is \<^verbatim>\<open>MAX_CONCURRENT_REQUESTS\<close> (10). In every state the manager can
  reach, \<^verbatim>\<open>create_request\<close> with a fresh id returns the new request and leaves at most 10
  requests. When 10 requests are live it evicts exactly one of them, one whose
  \<^verbatim>\<open>created_at\<close> is least, sets the completion event of the evicted request, keeps every
  other request in place and appends the new one; below capacity it only appends.
\<close>

theorem create_request_evicts_oldest:
  assumes "reachable m" and "uuid \<notin> keys (requests m)"
  shows "\<exists>m'. create_request uuid now d m = Inr (new_request uuid now d, m') \<and>
           length (requests m') \<le> MAX_CONCURRENT_REQUESTS \<and>
           (if length (requests m) = MAX_CONCURRENT_REQUESTS
            then \<exists>old r. (old, r) \<in> set (requests m) \<and>
                   (\<forall>e \<in> set (requests m). created_at r \<le> created_at (snd e)) \<and>
                   requests m' = AList.delete old (requests m) @ [(uuid, new_request uuid now d)] \<and>
                   set (requests m') = set (requests m) - {(old, r)} \<union> {(uuid, new_request uuid now d)} \<and>
                   old \<notin> keys (requests m') \<and>
                   (\<forall>ev. map_of (completion_events m) old = Some ev
                      \<longrightarrow> Event_is_set (event_heap m') ev)
            else requests m' = requests m @ [(uuid, new_request uuid now d)])"
proof -
  have w: "wf m" using assms(1) by (rule reachable_wf)
  then have dist: "distinct (map fst (requests m))" by (simp add: wf_def)
  have cap: "length (requests m) \<le> MAX_CONCURRENT_REQUESTS"
    using assms(1) by (rule reachable_capacity)
  let ?r = "new_request uuid now d"
  show ?thesis
  proof (cases "length (requests m) = MAX_CONCURRENT_REQUESTS")
    case True
    then have ne: "requests m \<noteq> []" by (auto simp: MAX_CONCURRENT_REQUESTS_def)
    from oldest_id_Inr [OF ne] obtain old r where
      old: "oldest_id (requests m) = Inr old" "(old, r) \<in> set (requests m)"
        "\<forall>e \<in> set (requests m). created_at r \<le> created_at (snd e)" by blast
    let ?m' = "insert_request ?r (remove_request old m)"
    have cr: "create_request uuid now d m = Inr (?r, ?m')"
      using True old(1) by (simp add: create_request_cases)
    have oldk: "old \<in> keys (requests m)" using old(2) by (force simp: keys_def)
    then have neq: "old \<noteq> uuid" using assms(2) by auto
    have fresh: "uuid \<notin> keys (AList.delete old (requests m))"
      using assms(2) by (simp add: keys_delete)
    have rq: "requests ?m' = AList.delete old (requests m) @ [(uuid, ?r)]"
      by (simp add: length_update_new [OF fresh])
    have len: "length (requests ?m') = MAX_CONCURRENT_REQUESTS"
      using length_delete_distinct [OF dist oldk] True by (simp add: length_update_new [OF fresh])
    have st: "set (requests ?m') = set (requests m) - {(old, r)} \<union> {(uuid, ?r)}"
      by (simp add: length_update_new [OF fresh] delete_distinct_split [OF dist old(2)])
    have gone: "old \<notin> keys (requests ?m')"
      using neq by (simp add: keys_update keys_delete)
    have ev: "Event_is_set (event_heap ?m') ev" if "map_of (completion_events m) old = Some ev" for ev
    proof -
      have "ev < length (event_heap m)" using w that by (rule wf_event_bound)
      with that show ?thesis
        by (simp add: heap_remove Event_is_set_def Event_set_def nth_append)
    qed
    show ?thesis
      using cr len True old(2,3) rq st gone ev by (intro exI [of _ ?m']) auto
  next
    case False
    have cr: "create_request uuid now d m = Inr (?r, insert_request ?r m)"
      using False cap by (simp add: create_request_cases)
    have rq: "requests (insert_request ?r m) = requests m @ [(uuid, ?r)]"
      by (simp add: length_update_new [OF assms(2)])
    show ?thesis
      using cr rq False cap by (intro exI [of _ "insert_request ?r m"]) auto
  qed
qed

theorem create_request_evicts_oldest_witness:
  "map fst (requests (step (CreateRequest ''k'' 20 (hello_data False))
       (run ten_creations init_manager))) =
     [''a'', ''b'', ''d'', ''e'', ''f'', ''g'', ''h'', ''i'', ''j'', ''k''] \<and>
   length (requests (run ten_creations init_manager)) = MAX_CONCURRENT_REQUESTS \<and>
   length (requests (step (CreateRequest ''k'' 20 (hello_data False))
       (run ten_creations init_manager))) = MAX_CONCURRENT_REQUESTS"
proof -
  let ?m = "run ten_creations init_manager"
  let ?r = "new_request ''k'' 20 (hello_data False)"
  have r: "reachable ?m" by (intro reachable_run reachable_init)
  have f: "''k'' \<notin> keys (requests ?m)" by (simp add: ten_requests_state keys_def)
  have full: "length (requests ?m) = MAX_CONCURRENT_REQUESTS"
    by (simp add: ten_requests_state MAX_CONCURRENT_REQUESTS_def)
  from create_request_evicts_oldest [OF r f, of 20 "hello_data False"] full
  obtain m' old r0 where
    cr: "create_request ''k'' 20 (hello_data False) ?m = Inr (?r, m')"
    and old: "(old, r0) \<in> set (requests ?m)"
      "\<forall>e \<in> set (requests ?m). created_at r0 \<le> created_at (snd e)"
    and rq: "requests m' = AList.delete old (requests ?m) @ [(''k'', ?r)]"
    by auto
  from old have "old = ''c''" by (auto simp: ten_requests_state)
  with rq have "map fst (requests m') =
      [''a'', ''b'', ''d'', ''e'', ''f'', ''g'', ''h'', ''i'', ''j'', ''k'']"
    by (simp add: ten_requests_state)
  moreover have "step (CreateRequest ''k'' 20 (hello_data False)) ?m = m'"
    using cr by simp
  moreover from rq have "length (requests m') = MAX_CONCURRENT_REQUESTS"
    by (simp add: \<open>old = ''c''\<close> ten_requests_state MAX_CONCURRENT_REQUESTS_def)
  ultimately show ?thesis using full by simp
qed

text \<open>
  Claim C6. For a live streaming request with queue \<open>q\<close>, let any operations of the
  manager follow, on this or on other requests, in any interleaving, such that the request
  is still live at the end (a removed request never returns, no later creation drawing
  its id). Then what \<^verbatim>\<open>get_response\<close> has handed out for the request, followed by what is
  still queued, is \<open>q\<close> followed by the responses passed to \<^verbatim>\<open>submit_response\<close> for it, in
  the same order: nothing is lost, doubled or reordered.
\<close>

theorem streaming_fifo:
  assumes "stream_queue m rid = Some q"
    and "\<not> list_ex (creates rid) ops"
    and "rid \<in> keys (requests (run ops m))"
  shows "\<exists>q'. stream_queue (run ops m) rid = Some q' \<and>
           q @ submitted rid ops = delivered rid ops m @ q'"
  using assms
proof (induction ops arbitrary: m q)
  case Nil
  then show ?case by (simp add: run_def submitted_def)
next
  case (Cons a ops)
  have run: "run (a # ops) m = run ops (step a m)" by (simp add: run_def)
  have live: "rid \<in> keys (requests (step a m))"
  proof (rule ccontr)
    assume "rid \<notin> keys (requests (step a m))"
    then have "rid \<notin> keys (requests (run ops (step a m)))"
      using Cons.prems(2) by (intro gone_stays_gone) simp_all
    with Cons.prems(3) show False by (simp add: run)
  qed
  from stream_queue_step [OF Cons.prems(1) _ live] Cons.prems(2) obtain q1 where
    q1: "stream_queue (step a m) rid = Some q1" "q @ submits rid a = delivers rid a m @ q1"
    by auto
  from Cons.IH [OF q1(1)] Cons.prems(2,3) obtain q' where
    q': "stream_queue (run ops (step a m)) rid = Some q'"
      "q1 @ submitted rid ops = delivered rid ops (step a m) @ q'"
    by (auto simp: run)
  have "q @ submitted rid (a # ops) = (q @ submits rid a) @ submitted rid ops"
    by (simp add: submitted_def)
  also have "\<dots> = delivers rid a m @ (q1 @ submitted rid ops)" by (simp add: q1(2))
  also have "\<dots> = delivered rid (a # ops) m @ q'" by (simp add: q'(2))
  finally show ?case using q'(1) by (simp add: run)
qed

theorem streaming_fifo_witness:
  "delivered ''s''
     [SubmitResponse ''s'' (reply ''s'' ''a'' False), GetResponse ''s'',
      SubmitResponse ''s'' (reply ''s'' ''b'' False), MarkProcessing ''s'',
      SubmitResponse ''s'' (reply ''s'' ''c'' True), GetResponse ''s'', GetResponse ''s'']
     (run [CreateRequest ''s'' 0 (hello_data True)] init_manager) =
     [reply ''s'' ''a'' False, reply ''s'' ''b'' False, reply ''s'' ''c'' True] \<and>
   submitted ''s''
     [SubmitResponse ''s'' (reply ''s'' ''a'' False), GetResponse ''s'',
      SubmitResponse ''s'' (reply ''s'' ''b'' False), MarkProcessing ''s'',
      SubmitResponse ''s'' (reply ''s'' ''c'' True), GetResponse ''s'', GetResponse ''s''] =
     [reply ''s'' ''a'' False, reply ''s'' ''b'' False, reply ''s'' ''c'' True] \<and>
   stream_queue
     (run [SubmitResponse ''s'' (reply ''s'' ''a'' False), GetResponse ''s'',
           SubmitResponse ''s'' (reply ''s'' ''b'' False), MarkProcessing ''s'',
           SubmitResponse ''s'' (reply ''s'' ''c'' True), GetResponse ''s'', GetResponse ''s'']
        (run [CreateRequest ''s'' 0 (hello_data True)] init_manager)) ''s'' = Some []"
proof -
  let ?m = "run [CreateRequest ''s'' 0 (hello_data True)] init_manager"
  let ?ops = "[SubmitResponse ''s'' (reply ''s'' ''a'' False), GetResponse ''s'',
      SubmitResponse ''s'' (reply ''s'' ''b'' False), MarkProcessing ''s'',
      SubmitResponse ''s'' (reply ''s'' ''c'' True), GetResponse ''s'', GetResponse ''s'']"
  have q0: "stream_queue ?m ''s'' = Some []"
    by (simp add: one_stream_state stream_queue_def)
  have nc: "\<not> list_ex (creates ''s'') ?ops" by simp
  have st: "requests (run ?ops ?m) =
      [(''s'', (new_request ''s'' 0 (hello_data True))\<lparr>status := ''completed''\<rparr>)]"
    by code_simp
  have live: "''s'' \<in> keys (requests (run ?ops ?m))" by (simp add: st keys_def)
  from streaming_fifo [OF q0 nc live] obtain q' where
    q': "stream_queue (run ?ops ?m) ''s'' = Some q'"
      "[] @ submitted ''s'' ?ops = delivered ''s'' ?ops ?m @ q'" by blast
  have sub: "submitted ''s'' ?ops =
      [reply ''s'' ''a'' False, reply ''s'' ''b'' False, reply ''s'' ''c'' True]"
    by (simp add: submitted_def)
  have del: "delivered ''s'' ?ops ?m =
      [reply ''s'' ''a'' False, reply ''s'' ''b'' False, reply ''s'' ''c'' True]"
    by code_simp
  from q'(2) have "q' = []" unfolding sub del by simp
  with q'(1) have "stream_queue (run ?ops ?m) ''s'' = Some []" by simp
  with del sub show ?thesis by (intro conjI)
qed

text \<open>
  Claim C3, as the code has it. The claim that the status only moves forward and is never
  touched once \<^verbatim>\<open>completed\<close> fails: \<^verbatim>\<open>mark_processing\<close> has no guard on the current status and
  sets a completed request that is still registered back to \<^verbatim>\<open>processing\<close>, as the
  concrete run after the theorem shows.

  What holds for every operation \<open>a\<close> other than a creation that draws the id \<open>rid\<close> again:
  an id that is not registered stays unregistered; the status of a registered request is
  left as it is, or the entry is removed, or \<open>a\<close> is \<^verbatim>\<open>mark_processing\<close> of this id and the
  status becomes \<^verbatim>\<open>processing\<close>, or \<open>a\<close> is \<^verbatim>\<open>submit_response\<close> for this id and the status
  becomes \<^verbatim>\<open>completed\<close>; so the only step against the order pending, processing, completed
  is the one of \<^verbatim>\<open>mark_processing\<close>, which sets \<^verbatim>\<open>processing\<close> on every registered request.
\<close>

theorem status_transitions:
  assumes "\<not> creates rid a"
  shows "(status_of m rid = None \<longrightarrow> status_of (step a m) rid = None) \<and>
         (\<forall>s. status_of m rid = Some s \<longrightarrow>
            status_of (step a m) rid = None \<or>
            status_of (step a m) rid = Some s \<or>
            a = MarkProcessing rid \<and> status_of (step a m) rid = Some ''processing'' \<or>
            (\<exists>resp. a = SubmitResponse rid resp) \<and>
              status_of (step a m) rid = Some ''completed'') \<and>
         (\<forall>s s'. status_of m rid = Some s \<and> status_of (step a m) rid = Some s' \<longrightarrow>
            rank s \<le> rank s' \<or> a = MarkProcessing rid \<and> s' = ''processing'') \<and>
         (status_of m rid \<noteq> None \<longrightarrow>
            status_of (step (MarkProcessing rid) m) rid = Some ''processing'')"
proof (intro conjI allI impI)
  assume "status_of m rid = None"
  with assms show "status_of (step a m) rid = None"
    by (cases rule: status_of_step_cases [of rid a m]) simp_all
next
  fix s assume s: "status_of m rid = Some s"
  from assms
  show "status_of (step a m) rid = None \<or>
        status_of (step a m) rid = Some s \<or>
        a = MarkProcessing rid \<and> status_of (step a m) rid = Some ''processing'' \<or>
        (\<exists>resp. a = SubmitResponse rid resp) \<and> status_of (step a m) rid = Some ''completed''"
  proof (cases rule: status_of_step_cases [of rid a m])
    case gone
    then show ?thesis by (rule disjI1)
  next
    case same
    with s have "status_of (step a m) rid = Some s" by simp
    then show ?thesis by (intro disjI2 disjI1)
  next
    case mark
    from mark(2,3) show ?thesis by (intro disjI2 disjI1 conjI)
  next
    case subm
    from subm(2,3) show ?thesis by (intro disjI2 conjI)
  qed
next
  fix s s' assume "status_of m rid = Some s \<and> status_of (step a m) rid = Some s'"
  then have s1: "status_of m rid = Some s" and s2: "status_of (step a m) rid = Some s'"
    by simp_all
  from assms
  show "rank s \<le> rank s' \<or> a = MarkProcessing rid \<and> s' = ''processing''"
  proof (cases rule: status_of_step_cases [of rid a m])
    case gone
    with s2 show ?thesis by simp
  next
    case same
    with s1 s2 have "s' = s" by simp
    then show ?thesis by simp
  next
    case mark
    with s2 have "s' = ''processing''" by simp
    with mark(2) show ?thesis by (intro disjI2 conjI)
  next
    case subm
    with s2 have "s' = ''completed''" by simp
    then show ?thesis using rank_completed [of s] by (intro disjI1) simp
  qed
next
  assume "status_of m rid \<noteq> None"
  then show "status_of (step (MarkProcessing rid) m) rid = Some ''processing''"
    using mark_processing_sets [of m rid] by simp
qed

theorem status_regression_counterexample:
  "status_of (run [CreateRequest ''r'' 0 (hello_data False),
                   SubmitResponse ''r'' (reply ''r'' ''hi there'' True)] init_manager) ''r''
     = Some ''completed'' \<and>
   mark_processing ''r''
     (run [CreateRequest ''r'' 0 (hello_data False),
           SubmitResponse ''r'' (reply ''r'' ''hi there'' True)] init_manager)
     = (True, run [CreateRequest ''r'' 0 (hello_data False),
                   SubmitResponse ''r'' (reply ''r'' ''hi there'' True),
                   MarkProcessing ''r''] init_manager) \<and>
   status_of (run [CreateRequest ''r'' 0 (hello_data False),
                   SubmitResponse ''r'' (reply ''r'' ''hi there'' True),
                   MarkProcessing ''r''] init_manager) ''r''
     = Some ''processing'' \<and>
   rank ''processing'' < rank ''completed''"
  by code_simp

theorem status_transitions_witness:
  "status_of (run [CreateRequest ''r'' 0 (hello_data False)] init_manager) ''r'' = Some ''pending'' \<and>
   status_of (step (SubmitResponse ''r'' (reply ''r'' ''hi there'' False))
       (run [CreateRequest ''r'' 0 (hello_data False)] init_manager)) ''r'' = Some ''completed'' \<and>
   rank ''pending'' \<le> rank ''completed'' \<and>
   status_of (step (MarkProcessing ''r'')
       (run [CreateRequest ''r'' 0 (hello_data False)] init_manager)) ''r'' = Some ''processing''"
proof -
  let ?m = "run [CreateRequest ''r'' 0 (hello_data False)] init_manager"
  let ?a = "SubmitResponse ''r'' (reply ''r'' ''hi there'' False)"
  have c: "\<not> creates ''r'' ?a" by simp
  have p: "status_of ?m ''r'' = Some ''pending''" by code_simp
  have q: "status_of (step ?a ?m) ''r'' = Some ''completed''" by code_simp
  note t = status_transitions [OF c, of ?m]
  note t3 = t [THEN conjunct2, THEN conjunct2, THEN conjunct1, rule_format, OF conjI, OF p q]
  note t4 = t [THEN conjunct2, THEN conjunct2, THEN conjunct2, rule_format]
  have "?a \<noteq> MarkProcessing ''r''" by simp
  with t3 have r: "rank ''pending'' \<le> rank ''completed''" by (elim disjE conjE) simp_all
  have "status_of ?m ''r'' \<noteq> None" unfolding p by simp
  then have "status_of (step (MarkProcessing ''r'') ?m) ''r'' = Some ''processing''" by (rule t4)
  with p q r show ?thesis by (intro conjI)
qed

text \<open>
  Claim C2, as the code has it. A waiter whose registry entry is destroyed while it sleeps
  in \<^verbatim>\<open>wait_for_completion\<close> is woken, but it does not see \<^verbatim>\<open>False\<close>: \<^verbatim>\<open>_remove_request\<close> sets
  the completion event before it drops it, and \<^verbatim>\<open>Event.wait\<close> returns the flag, so the call
  returns \<^verbatim>\<open>True\<close>, as the concrete run after the theorem shows.

  What holds: let a waiter have read the event \<open>ev\<close> of the request in the state \<open>m0\<close>, and
  let an operation \<open>a\<close> (cancellation, eviction by a creation, the cleanup sweep, or
  \<^verbatim>\<open>get_final_response\<close>) remove the request from a reachable state \<open>m\<close> in which it still
  has that event, at a time within the timeout of the wait. Then the event is set in the
  state after \<open>a\<close>, the wait returns \<^verbatim>\<open>True\<close> at that state at the latest, and every call of
  \<^verbatim>\<open>wait_for_completion\<close> that starts after the removal returns \<^verbatim>\<open>False\<close> at once.
\<close>

theorem removal_wakes_waiter:
  assumes "reachable m"
    and "map_of (completion_events m0) rid = Some ev"
    and "map_of (completion_events m) rid = Some ev"
    and "rid \<notin> keys (requests (step a m))"
    and "list_all (\<lambda>p. fst p < real_of_int (actual_timeout tmo (map_of (requests m0) rid))) pre"
    and "tm < real_of_int (actual_timeout tmo (map_of (requests m0) rid))"
  shows "Event_is_set (event_heap (step a m)) ev \<and>
         wait_for_completion rid tmo m0 (pre @ (tm, step a m) # later) = True \<and>
         wait_for_completion rid tmo' (step a m) later' = False"
proof -
  have w: "wf m" using assms(1) by (rule reachable_wf)
  have s: "Event_is_set (event_heap (step a m)) ev"
    using w assms(3,4) by (rule removed_event_set)
  let ?t = "real_of_int (actual_timeout tmo (map_of (requests m0) rid))"
  have "list_all (\<lambda>p. fst p < ?t) (map (\<lambda>(tm, m'). (tm, event_heap m')) pre)"
    using assms(5) by (simp add: list_all_iff case_prod_unfold)
  from Event_wait_reaches [OF this assms(6) s]
  have "Event_wait ev ?t
      (map (\<lambda>(tm, m'). (tm, event_heap m')) (pre @ (tm, step a m) # later))"
    by simp
  then have t: "wait_for_completion rid tmo m0 (pre @ (tm, step a m) # later)"
    using assms(2) by (simp add: wait_for_completion_def Let_def)
  have "wf (step a m)" using w by (rule wf_step)
  then have "map_of (completion_events (step a m)) rid = None"
    using assms(4) by (rule removed_no_event)
  then have f: "\<not> wait_for_completion rid tmo' (step a m) later'"
    by (simp add: wait_for_completion_def)
  from s t f show ?thesis by simp
qed

theorem removal_returns_true_counterexample:
  "status_of (run [CreateRequest ''r'' 0 (hello_data False)] init_manager) ''r'' = Some ''pending'' \<and>
   ''r'' \<notin> keys (requests (cancel_request ''r''
       (run [CreateRequest ''r'' 0 (hello_data False)] init_manager))) \<and>
   wait_for_completion ''r'' None (run [CreateRequest ''r'' 0 (hello_data False)] init_manager)
     [(1, cancel_request ''r'' (run [CreateRequest ''r'' 0 (hello_data False)] init_manager))]
   = True"
proof -
  let ?m = "run [CreateRequest ''r'' 0 (hello_data False)] init_manager"
  have 1: "status_of ?m ''r'' = Some ''pending''" by code_simp
  have e: "cancel_request ''r'' ?m =
      \<lparr>requests = [], response_queues = [], completion_events = [], event_heap = [True]\<rparr>"
    unfolding one_request_state
    by (simp add: cancel_request_def keys_def remove_request_def Event_set_def)
  have 2: "''r'' \<notin> keys (requests (cancel_request ''r'' ?m))"
    unfolding e by (simp add: keys_def)
  have 3: "wait_for_completion ''r'' None ?m [(1, cancel_request ''r'' ?m)] = True"
    unfolding e
    unfolding one_request_state
    by (simp add: wait_for_completion_def actual_timeout_def Event_is_set_def)
  from 1 2 3 show ?thesis by (intro conjI)
qed

theorem removal_wakes_waiter_witness:
  "Event_is_set (event_heap (step (CleanupExpired 700000000)
       (run [CreateRequest ''r'' 0 (hello_data False),
             CreateRequest ''y'' 500000000 (hello_data False)] init_manager))) 0 \<and>
   wait_for_completion ''r'' None
       (run [CreateRequest ''r'' 0 (hello_data False),
             CreateRequest ''y'' 500000000 (hello_data False)] init_manager)
       [(2, step (CleanupExpired 700000000)
          (run [CreateRequest ''r'' 0 (hello_data False),
                CreateRequest ''y'' 500000000 (hello_data False)] init_manager))] = True \<and>
   wait_for_completion ''r'' None
       (step (CleanupExpired 700000000)
          (run [CreateRequest ''r'' 0 (hello_data False),
                CreateRequest ''y'' 500000000 (hello_data False)] init_manager)) [] = False"
proof -
  let ?m = "run [CreateRequest ''r'' 0 (hello_data False),
                 CreateRequest ''y'' 500000000 (hello_data False)] init_manager"
  have r: "reachable ?m" by (intro reachable_run reachable_init)
  have e: "map_of (completion_events ?m) ''r'' = Some 0" by (simp add: two_request_state)
  have "requests (step (CleanupExpired 700000000) ?m) =
      [(''y'', new_request ''y'' 500000000 (hello_data False))]"
    by (simp add: requests_cleanup two_request_state expired_def REQUEST_TTL_def)
  then have g: "''r'' \<notin> keys (requests (step (CleanupExpired 700000000) ?m))"
    by (simp add: keys_def)
  have t: "actual_timeout None (map_of (requests ?m) ''r'') = 180"
    by (simp add: two_request_state actual_timeout_def)
  have l: "list_all (\<lambda>p. fst p < real_of_int (actual_timeout None (map_of (requests ?m) ''r''))) []"
    by simp
  have b: "2 < real_of_int (actual_timeout None (map_of (requests ?m) ''r''))"
    unfolding t by simp
  from removal_wakes_waiter [OF r e e g l b, of "[]" None "[]"] show ?thesis by simp
qed

text \<open>
  Claim C9, as the code has it. \<^verbatim>\<open>create_request\<close> validates nothing: it reads every field
  with a default and registers the request also when the content is missing, as the
  concrete call after the theorem shows.

  What holds: the check is in the endpoint. \<^verbatim>\<open>webllm_chat\<close> takes \<^verbatim>\<open>content\<close>, else
  \<^verbatim>\<open>user_message\<close>, else the empty string, strips it, and when nothing is left it answers
  400 \<^verbatim>\<open>Content is required\<close> without calling \<^verbatim>\<open>create_request\<close>, so the registry is as before;
  otherwise it registers a request with the stripped content. \<^verbatim>\<open>create_request\<close> itself
  always returns the new request and registers it.
\<close>

theorem chat_validates_before_create:
  "(chat_content c = [] \<longrightarrow>
      webllm_chat uuid now c m = (Response400 ''Content is required'', m)) \<and>
   (chat_content c \<noteq> [] \<longrightarrow>
      (\<exists>req. (fst (webllm_chat uuid now c m) = Streams req \<or>
              fst (webllm_chat uuid now c m) = Waits req) \<and>
             content req = chat_content c \<and>
             map_of (requests (snd (webllm_chat uuid now c m))) uuid = Some req)) \<and>
   (\<exists>m'. create_request uuid now d m = Inr (new_request uuid now d, m') \<and>
         map_of (requests m') uuid = Some (new_request uuid now d) \<and>
         content (new_request uuid now d) = dict_get (d_content d) [])"
proof (intro conjI impI)
  assume "chat_content c = []"
  then show "webllm_chat uuid now c m = (Response400 ''Content is required'', m)"
    by (simp add: webllm_chat_def)
next
  assume ne: "chat_content c \<noteq> []"
  define mdl where "mdl = (if dict_get (c_model c) ''Llama-3.2-1B-Instruct'' \<notin> set allowed_models
      then ''Llama-3.2-1B-Instruct'' else dict_get (c_model c) ''Llama-3.2-1B-Instruct'')"
  define d' where "d' = chat_request_data c (chat_content c) mdl (dict_get (c_stream c) False)"
  from create_request_registers [of uuid now d' m] obtain m' where
    m': "create_request uuid now d' m = Inr (new_request uuid now d', m')"
      "map_of (requests m') uuid = Some (new_request uuid now d')" by blast
  have c: "content (new_request uuid now d') = chat_content c"
    by (simp add: new_request_def d'_def chat_request_data_def dict_get_def)
  have "webllm_chat uuid now c m =
      ((if dict_get (c_stream c) False then Streams else Waits) (new_request uuid now d'), m')"
    using ne m'(1) by (auto simp: webllm_chat_def Let_def d'_def mdl_def)
  with m'(2) c
  show "\<exists>req. (fst (webllm_chat uuid now c m) = Streams req \<or>
              fst (webllm_chat uuid now c m) = Waits req) \<and>
             content req = chat_content c \<and>
             map_of (requests (snd (webllm_chat uuid now c m))) uuid = Some req"
    by (intro exI [of _ "new_request uuid now d'"]) simp
next
  from create_request_registers [of uuid now d m]
  show "\<exists>m'. create_request uuid now d m = Inr (new_request uuid now d, m') \<and>
         map_of (requests m') uuid = Some (new_request uuid now d) \<and>
         content (new_request uuid now d) = dict_get (d_content d) []"
    by (auto simp: new_request_def)
qed

theorem create_request_without_content_counterexample:
  "create_request ''r'' 0 no_data init_manager =
     Inr (new_request ''r'' 0 no_data,
          \<lparr>requests = [(''r'', new_request ''r'' 0 no_data)], response_queues = [],
           completion_events = [(''r'', 0)], event_heap = [False]\<rparr>) \<and>
   content (new_request ''r'' 0 no_data) = []"
  by (simp add: create_request_cases insert_request_def Event_new_def init_manager_def
      MAX_CONCURRENT_REQUESTS_def new_request_def no_data_def dict_get_def)

theorem chat_validates_before_create_witness:
  "chat_content (chat_body ''   '') = [] \<and>
   webllm_chat ''r'' 0 (chat_body ''   '') init_manager =
     (Response400 ''Content is required'', init_manager) \<and>
   chat_content (chat_body '' hi '') = ''hi'' \<and>
   fst (webllm_chat ''r'' 0 (chat_body '' hi '') init_manager) =
     Waits (new_request ''r'' 0
       (chat_request_data (chat_body '' hi '') ''hi'' ''Llama-3.2-1B-Instruct'' False))"
proof -
  have e: "chat_content (chat_body ''   '') = []" by code_simp
  have h: "chat_content (chat_body '' hi '') = ''hi''" by code_simp
  note t = chat_validates_before_create [of "chat_body ''   ''" "''r''" 0 init_manager]
  from t [THEN conjunct1, rule_format, OF e]
  have 1: "webllm_chat ''r'' 0 (chat_body ''   '') init_manager =
      (Response400 ''Content is required'', init_manager)" .
  have 2: "fst (webllm_chat ''r'' 0 (chat_body '' hi '') init_manager) =
     Waits (new_request ''r'' 0
       (chat_request_data (chat_body '' hi '') ''hi'' ''Llama-3.2-1B-Instruct'' False))"
    by code_simp
  from e 1 h 2 show ?thesis by (intro conjI)
qed

text \<open>
  Claim C1 says that the adapter ends the stream when it retrieves a response without
  error and with \<^verbatim>\<open>done\<close> set, whatever its content. In the code the test of \<^verbatim>\<open>response.done\<close>
  sits inside the branch \<^verbatim>\<open>elif response.content\<close>, so a final response with empty content
  is retrieved and dropped and the loop goes on polling. The theorem runs Scenario B:
  the queue holds the four responses in order; after four passes the three contents have
  been emitted and the generator has not finished, although the request is \<^verbatim>\<open>completed\<close> and
  its queue is empty; polling on every 200 ms it ends only at 11 s, with an inactivity
  error frame (10.2 s after the last retrieval). With a final response that has content the
  same run ends at the fourth pass.
\<close>

theorem stream_ignores_empty_final_response:
  "stream_queue (scenario_B []) ''s'' =
     Some [reply ''s'' ''a'' False, reply ''s'' ''b'' False, reply ''s'' ''c'' False,
           reply ''s'' [] True] \<and>
   stream_webllm_response (new_request ''s'' 0 (hello_data True)) (stream_start 0) (polls 4)
       (scenario_B []) =
     ([DeltaFrame ''a'', DeltaFrame ''b'', DeltaFrame ''c''], False,
      \<lparr>requests = [(''s'', (new_request ''s'' 0 (hello_data True))\<lparr>status := ''completed''\<rparr>)],
       response_queues = [(''s'', [])], completion_events = [(''s'', 0)], event_heap = [True]\<rparr>) \<and>
   stream_webllm_response (new_request ''s'' 0 (hello_data True)) (stream_start 0) (polls 55)
       (scenario_B []) =
     ([DeltaFrame ''a'', DeltaFrame ''b'', DeltaFrame ''c'', InactiveFrame (51 / 5)], True,
      \<lparr>requests = [], response_queues = [], completion_events = [], event_heap = [True]\<rparr>) \<and>
   stream_webllm_response (new_request ''s'' 0 (hello_data True)) (stream_start 0) (polls 4)
       (scenario_B ''d'') =
     ([DeltaFrame ''a'', DeltaFrame ''b'', DeltaFrame ''c'', DeltaFrame ''d''], True,
      \<lparr>requests = [], response_queues = [], completion_events = [], event_heap = [True]\<rparr>)"
  by code_simp

end
